theory Spec2Isabelle
  imports Main "HOL-Library.Multiset"
begin

section \<open>Text: characters, whitespace, lines\<close>

text \<open>
  The scripts work on Python \<open>str\<close> values. A text is modelled as a \<open>string\<close>; a
  \<open>char\<close> stands for one code point below 256. On that range Python's \<open>str.strip()\<close>
  and the regular-expression class \<open>\s\<close> agree on the whitespace characters
  (\<open>str.isspace\<close>: 9 to 13, 28 to 32, 133 and 160), \<open>\d\<close> is \<open>0\<close> to \<open>9\<close>, and
  \<open>re.IGNORECASE\<close> identifies exactly the ASCII letters of different case.
\<close>

definition nl :: char where
  "nl = CHR 0x0A"

definition is_space :: "char \<Rightarrow> bool" where
  "is_space c = (c \<in> {CHR 0x09, CHR 0x0A, CHR 0x0B, CHR 0x0C, CHR 0x0D,
                       CHR 0x1C, CHR 0x1D, CHR 0x1E, CHR 0x1F, CHR 0x20, CHR 0x85, CHR 0xA0})"

definition is_digit :: "char \<Rightarrow> bool" where
  "is_digit c = (c \<in> set ''0123456789'')"

definition in_range :: "char \<Rightarrow> char \<Rightarrow> char \<Rightarrow> bool" where
  "in_range lo hi c = ((of_char lo :: nat) \<le> of_char c \<and> (of_char c :: nat) \<le> of_char hi)"

text \<open>The lower-case form of an ASCII letter: its code plus 32, that is, with bit 5 set.\<close>

definition lower :: "char \<Rightarrow> char" where
  "lower c =
     (if in_range CHR ''A'' CHR ''Z'' c
      then (case c of Char b0 b1 b2 b3 b4 b5 b6 b7 \<Rightarrow> Char b0 b1 b2 b3 b4 True b6 b7)
      else c)"

text \<open>\<open>s.strip()\<close>: leading and trailing whitespace removed.\<close>

definition strip :: "string \<Rightarrow> string" where
  "strip s = rev (dropWhile is_space (rev (dropWhile is_space s)))"

text \<open>\<open>s.startswith(p)\<close>.\<close>

definition startswith :: "string \<Rightarrow> string \<Rightarrow> bool" where
  "startswith s p = (take (length p) s = p)"

text \<open>\<open>s.split('\n')\<close>: always at least one piece.\<close>

fun split_nl :: "string \<Rightarrow> string list" where
  "split_nl [] = [[]]"
| "split_nl (c # cs) =
     (if c = nl then [] # split_nl cs
      else (case split_nl cs of [] \<Rightarrow> [[c]] | piece # pieces \<Rightarrow> (c # piece) # pieces))"

text \<open>\<open>'\n'.join(xs)\<close>.\<close>

fun join_nl :: "string list \<Rightarrow> string" where
  "join_nl [] = []"
| "join_nl [x] = x"
| "join_nl (x # y # ys) = x @ nl # join_nl (y # ys)"

text \<open>\<open>str(n)\<close> for a non-negative integer.\<close>

definition digit_char :: "nat \<Rightarrow> char" where
  "digit_char d = ''0123456789'' ! d"

fun show_nat :: "nat \<Rightarrow> string" where
  "show_nat n = (if n < 10 then [digit_char n] else show_nat (n div 10) @ [digit_char (n mod 10)])"

declare show_nat.simps [simp del]

definition digit_val :: "char \<Rightarrow> nat" where
  "digit_val c = of_char c - 48"

definition digits_value :: "string \<Rightarrow> nat" where
  "digits_value s = foldl (\<lambda>a c. 10 * a + digit_val c) 0 s"

text \<open>
  \<open>int(s)\<close> for a string of digits. Python refuses to convert a string of more than
  \<open>sys.int_max_str_digits\<close> digits, 4300 unless the interpreter is configured otherwise, and
  raises \<open>ValueError\<close>; no script catches it.
\<close>

datatype error = ValueError

definition int_max_str_digits :: nat where
  "int_max_str_digits = 4300"

definition int_of :: "string \<Rightarrow> error + nat" where
  "int_of s = (if length s > int_max_str_digits then Inl ValueError else Inr (digits_value s))"

section \<open>Regular expressions\<close>

text \<open>
  The fragment of Python's \<open>re\<close> syntax that the scripts use: a pattern is a sequence of
  items; an item is one character of a class, a greedy or lazy repetition of a class,
  a positive lookahead over alternatives, an end anchor, or the boundary of a capture
  group. Flags are resolved when the pattern is written down: under \<open>re.IGNORECASE\<close> a
  literal letter is \<open>ICh\<close>, under \<open>re.DOTALL\<close> the dot is \<open>AnyCh\<close>, otherwise \<open>NotCh nl\<close>.
\<close>

datatype cls =
    Ch char
  | ICh char
  | Range char char
  | Digit
  | Space
  | AnyCh
  | NotCh char
  | Or cls cls
  | Outside

fun cmatch :: "cls \<Rightarrow> char \<Rightarrow> bool" where
  "cmatch (Ch a) c = (c = a)"
| "cmatch (ICh a) c = (lower c = lower a)"
| "cmatch (Range lo hi) c = in_range lo hi c"
| "cmatch Digit c = is_digit c"
| "cmatch Space c = is_space c"
| "cmatch AnyCh c = True"
| "cmatch (NotCh a) c = (c \<noteq> a)"
| "cmatch (Or p q) c = (cmatch p c \<or> cmatch q c)"
| "cmatch Outside c = False"

datatype item =
    One cls
  | Greedy cls
  | Lazy cls
  | Look "item list list"
  | Dollar
  | EndZ
  | Mark

text \<open>
  \<open>rmatch p s\<close> is the match of pattern \<open>p\<close> at the start of \<open>s\<close> that a backtracking
  matcher finds first: \<open>None\<close> when there is none, otherwise the rest of the text at
  every \<open>Mark\<close> passed, followed by the rest of the text after the match.
\<close>

function rmatch :: "item list \<Rightarrow> string \<Rightarrow> string list option"
  and rlook :: "item list list \<Rightarrow> string \<Rightarrow> bool" where
  "rmatch [] s = Some [s]"
| "rmatch (One c # p) s =
     (case s of [] \<Rightarrow> None
      | x # xs \<Rightarrow> if cmatch c x then rmatch p xs else None)"
| "rmatch (Greedy c # p) s =
     (case s of [] \<Rightarrow> rmatch p []
      | x # xs \<Rightarrow>
          if cmatch c x then
            (case rmatch (Greedy c # p) xs of Some r \<Rightarrow> Some r | None \<Rightarrow> rmatch p s)
          else rmatch p s)"
| "rmatch (Lazy c # p) s =
     (case rmatch p s of Some r \<Rightarrow> Some r
      | None \<Rightarrow>
          (case s of [] \<Rightarrow> None
           | x # xs \<Rightarrow> if cmatch c x then rmatch (Lazy c # p) xs else None))"
| "rmatch (Look alts # p) s = (if rlook alts s then rmatch p s else None)"
| "rmatch (Dollar # p) s = (if s = [] \<or> s = [nl] then rmatch p s else None)"
| "rmatch (EndZ # p) s = (if s = [] then rmatch p s else None)"
| "rmatch (Mark # p) s = map_option ((#) s) (rmatch p s)"
| "rlook [] s = False"
| "rlook (a # alts) s = (rmatch a s \<noteq> None \<or> rlook alts s)"
  by pat_completeness auto
termination
  by (relation "inv_image (less_than <*lex*> less_than)
         (\<lambda>x. case x of Inl (p, s) \<Rightarrow> (size_list size p, length s)
                    | Inr (a, s) \<Rightarrow> (size_list (size_list size) a, length s))")
     auto


text \<open>The equations of \<open>rmatch\<close> by the shape of the text, for proofs.\<close>

declare rmatch.simps(2,3,4) [simp del]

lemma rmatch_One_Nil [simp]: "rmatch (One c # p) [] = None"
  by (simp add: rmatch.simps)

lemma rmatch_One_Cons [simp]: "rmatch (One c # p) (x # xs) = (if cmatch c x then rmatch p xs else None)"
  by (simp add: rmatch.simps)

lemma rmatch_Greedy_Nil [simp]: "rmatch (Greedy c # p) [] = rmatch p []"
  by (simp add: rmatch.simps)

lemma rmatch_Greedy_Cons [simp]:
  "rmatch (Greedy c # p) (x # xs) =
     (if cmatch c x
      then (case rmatch (Greedy c # p) xs of Some r \<Rightarrow> Some r | None \<Rightarrow> rmatch p (x # xs))
      else rmatch p (x # xs))"
  by (simp add: rmatch.simps)

text \<open>\<open>re.search(p, s)\<close>: the leftmost position with a match, as the text from there and the match.\<close>

fun re_search :: "item list \<Rightarrow> string \<Rightarrow> (string \<times> string list) option" where
  "re_search p [] = map_option (Pair []) (rmatch p [])"
| "re_search p (x # xs) =
     (case rmatch p (x # xs) of Some r \<Rightarrow> Some (x # xs, r) | None \<Rightarrow> re_search p xs)"

text \<open>
  \<open>re.sub(p, repl, s)\<close>: every match, found from left to right without overlap, is
  replaced by \<open>repl\<close>. No pattern of the scripts matches the empty string; the branch for
  an empty match inserts \<open>repl\<close> and moves on by one character.
\<close>

function re_sub :: "item list \<Rightarrow> string \<Rightarrow> string \<Rightarrow> string" where
  "re_sub p repl s =
     (case rmatch p s of
        Some r \<Rightarrow>
          if length (last r) < length s then repl @ re_sub p repl (last r)
          else (case s of [] \<Rightarrow> repl | x # xs \<Rightarrow> repl @ x # re_sub p repl xs)
      | None \<Rightarrow> (case s of [] \<Rightarrow> [] | x # xs \<Rightarrow> x # re_sub p repl xs))"
  by pat_completeness auto
termination
  by (relation "measure (\<lambda>(p, repl, s). length s)") auto

declare re_sub.simps [simp del]

text \<open>
  \<open>re.split(p, s)\<close> for a pattern that is one capture group: the pieces of text between
  the matches, with the matched separators kept between them. \<open>acc\<close> is the piece being
  read.
\<close>

function re_split :: "item list \<Rightarrow> string \<Rightarrow> string \<Rightarrow> string list" where
  "re_split p acc [] = [acc]"
| "re_split p acc (x # xs) =
     (case rmatch p (x # xs) of
        Some r \<Rightarrow>
          if length (last r) < length (x # xs)
          then acc # take (length (x # xs) - length (last r)) (x # xs) # re_split p [] (last r)
          else re_split p (acc @ [x]) xs
      | None \<Rightarrow> re_split p (acc @ [x]) xs)"
  by pat_completeness auto
termination
  by (relation "measure (\<lambda>(p, acc, s). length s)") auto

declare re_split.simps(2) [simp del]

text \<open>Pattern notation: literal text with and without \<open>re.IGNORECASE\<close>, and the usual repetitions.\<close>

definition lit :: "string \<Rightarrow> item list" where
  "lit s = map (\<lambda>c. One (Ch c)) s"

definition ilit :: "string \<Rightarrow> item list" where
  "ilit s = map (\<lambda>c. One (ICh c)) s"

definition plus :: "cls \<Rightarrow> item list" where
  "plus c = [One c, Greedy c]"

text \<open>The text matched between two positions, each given as the rest of the text there.\<close>

definition between :: "string \<Rightarrow> string \<Rightarrow> string" where
  "between a b = take (length a - length b) a"

section \<open>What the cleaning scripts share\<close>

text \<open>
  Each element the cleaners append to \<open>processed_lines\<close>, labelled by the branch that
  appends it; \<open>render\<close> is the string the code appends.
\<close>

datatype oline =
    Topic string
  | Question nat string
  | Answer string
  | Blank
  | Other string

fun render :: "oline \<Rightarrow> string" where
  "render (Topic s) = s"
| "render (Question n t) = show_nat n @ ''. Q: '' @ t"
| "render (Answer t) = ''A: '' @ t"
| "render Blank = []"
| "render (Other s) = s"

text \<open>The loop \<open>for pattern in patterns: cleaned_content = re.sub(pattern, '', cleaned_content)\<close>.\<close>

definition remove_fluff :: "item list list \<Rightarrow> string \<Rightarrow> string" where
  "remove_fluff patterns content = foldl (\<lambda>cleaned p. re_sub p [] cleaned) content patterns"

text \<open>\<open>re.sub(r'\s+', ' ', answer_text)\<close>.\<close>

definition collapse_ws :: "string \<Rightarrow> string" where
  "collapse_ws s = re_sub (plus Space) '' '' s"

text \<open>\<open>re.match(r'^\d+\.\s*Q:', line)\<close>, used by the summary counts and by a topic test.\<close>

definition numbered_q :: "item list" where
  "numbered_q = plus Digit @ lit ''.'' @ [Greedy Space] @ lit ''Q:''"

definition is_numbered_q :: "string \<Rightarrow> bool" where
  "is_numbered_q line = (rmatch numbered_q line \<noteq> None)"

text \<open>The three counts every cleaner takes of \<open>processed_lines\<close> after writing the file.\<close>

definition count_topics :: "string list \<Rightarrow> nat" where
  "count_topics ls = length (filter (\<lambda>line. startswith line ''## '') ls)"

definition count_questions :: "string list \<Rightarrow> nat" where
  "count_questions ls = length (filter is_numbered_q ls)"

definition count_answers :: "string list \<Rightarrow> nat" where
  "count_answers ls = length (filter (\<lambda>line. startswith line ''A:'') ls)"

text \<open>The file written: \<open>f.write('\n'.join(processed_lines))\<close>.\<close>

definition written :: "oline list \<Rightarrow> string" where
  "written out = join_nl (map render out)"

section \<open>process_db_qa.py\<close>

text \<open>The list \<open>fluff_patterns\<close>, all applied with \<open>re.DOTALL | re.IGNORECASE\<close>.\<close>

definition qa_fluff_patterns :: "item list list" where
  "qa_fluff_patterns =
    [ ilit ''If you want, I can expand this'' @ [Lazy AnyCh] @ ilit ''Do you want me to do that next?'',
      ilit ''You said:'' @ [Greedy Space] @ ilit ''Proceed'' @ [Greedy Space] @ ilit ''ChatGPT said:''
        @ [Greedy Space] @ ilit ''Perfect.'',
      ilit ''Perfect. Here's a comprehensive'' @ [Lazy AnyCh],
      ilit ''Do you want me to'' @ [Lazy AnyCh],
      ilit ''I can expand'' @ [Lazy AnyCh],
      ilit ''continuing from what we've covered'' @ [Lazy AnyCh],
      ilit ''covering'' @ [Lazy AnyCh] @ ilit ''cloud operations specifically.'',
      ilit ''Comprehensive Practical DevOps DB Q&A'',
      ilit ''Here's a comprehensive'' @ [Lazy AnyCh] @ ilit ''migrations.'' ]"

text \<open>\<open>re.match(r'^(\d+)\.\s+(.+)$', line)\<close>; the groups are not read.\<close>

definition qa_topic_re :: "item list" where
  "qa_topic_re = plus Digit @ lit ''.'' @ plus Space @ plus (NotCh nl) @ [Dollar]"

text \<open>The two substitutions of \<open>answer_clean_patterns\<close>, then \<open>strip()\<close>. The arrow glyph
  is written in the source as three code points, the last two of them above 255.\<close>

definition arrow_re :: "item list" where
  "arrow_re = [One (Ch (CHR 0xE2)), One Outside, One Outside, Lazy (NotCh nl), Look [[One Space], [Dollar]]]"

definition qa_clean_answer :: "string \<Rightarrow> string" where
  "qa_clean_answer answer_text = strip (re_sub (plus Space) '' '' (re_sub arrow_re [] answer_text))"

text \<open>The list \<open>skip_patterns\<close>, matched at the start of the line with \<open>re.IGNORECASE\<close>.\<close>

definition qa_skip_patterns :: "item list list" where
  "qa_skip_patterns =
    [ ilit ''Perfect.'',
      ilit ''You said:'',
      ilit ''ChatGPT said:'',
      ilit ''If you want'',
      ilit ''Do you want'',
      ilit ''Here's a'',
      plus Digit @ ilit ''+'' @ [Greedy (NotCh nl)] @ ilit ''practical'',
      ilit ''covering'' @ [Greedy (NotCh nl)] @ ilit ''specifically'' ]"

definition should_skip :: "item list list \<Rightarrow> string \<Rightarrow> bool" where
  "should_skip patterns line = list_ex (\<lambda>p. rmatch p line \<noteq> None) patterns"

text \<open>One pass of the body of \<open>for line in lines\<close>; the state is \<open>processed_lines\<close> and
  \<open>question_number\<close> (\<open>current_topic\<close> is written and never read).\<close>

definition qa_step :: "oline list \<times> nat \<Rightarrow> string \<Rightarrow> oline list \<times> nat" where
  "qa_step st raw =
     (let processed_lines = fst st; question_number = snd st; line = strip raw in
      if line = [] \<and> processed_lines = [] then st
      else if rmatch qa_topic_re line \<noteq> None \<and> \<not> startswith line ''Q:'' \<and> length line > 30
        then (processed_lines @ [Topic ([nl] @ ''## '' @ line @ [nl])], 1)
      else if startswith line ''Q:''
        then (processed_lines @ [Question question_number (strip (drop 2 line))], question_number + 1)
      else if startswith line ''A:''
        then (let answer_text = qa_clean_answer (strip (drop 2 line)) in
              if answer_text \<noteq> [] then (processed_lines @ [Answer answer_text, Blank], question_number)
              else st)
      else if should_skip qa_skip_patterns line then st
      else if line \<noteq> [] \<and> length line > 3 then (processed_lines @ [Other line], question_number)
      else st)"

definition qa_lines :: "string list \<Rightarrow> oline list" where
  "qa_lines lines = fst (foldl qa_step ([], 1) lines)"

text \<open>From the content read to \<open>processed_lines\<close>, then the file written and the counts
  printed and returned.\<close>

definition process_db_qa_out :: "string \<Rightarrow> oline list" where
  "process_db_qa_out content = qa_lines (split_nl (remove_fluff qa_fluff_patterns content))"

definition process_db_qa :: "string \<Rightarrow> string \<times> nat \<times> nat \<times> nat" where
  "process_db_qa content =
     (let processed_lines = map render (process_db_qa_out content) in
      (join_nl processed_lines,
       count_topics processed_lines, count_questions processed_lines, count_answers processed_lines))"

section \<open>clean_db_final.py\<close>

text \<open>The list \<open>major_fluff\<close>, applied with \<open>re.DOTALL | re.IGNORECASE\<close>.\<close>

definition major_fluff :: "item list list" where
  "major_fluff =
    [ ilit (''If you want, I can expand this into a '' @ [CHR 0x22]
            @ ''200+ practical DevOps DB Q&A list'' @ [CHR 0x22])
        @ [Lazy AnyCh] @ ilit ''Do you want me to do that next?'',
      ilit ''You said:'' @ [Greedy Space] @ ilit ''Proceed'' @ [Greedy Space] @ ilit ''ChatGPT said:''
        @ [Greedy Space] @ ilit ''Perfect.'' @ [Lazy AnyCh] @ ilit ''Here's a comprehensive''
        @ [Lazy AnyCh] @ ilit ''migrations.'',
      ilit ''Perfect. Here's a comprehensive'' @ [Lazy AnyCh] @ ilit ''migrations.'',
      ilit (''Here's a comprehensive, practical DevOps database Q&A list, continuing from what we've covered. ''
            @ ''I'll focus on RDBMS, NoSQL, cloud-managed DBs, operations, monitoring, security, scaling, and migrations.''),
      ilit ''Comprehensive Practical DevOps DB Q&A'' ]"

text \<open>\<open>re.match(r'^(\d+)\.\s+([A-Z][a-zA-Z\s&/]+)$', line)\<close>; the groups are not read.\<close>

definition final_topic_cls :: cls where
  "final_topic_cls =
     Or (Range CHR ''a'' CHR ''z'') (Or (Range CHR ''A'' CHR ''Z'') (Or Space (Or (Ch CHR ''&'') (Ch CHR ''/''))))"

definition final_topic_re :: "item list" where
  "final_topic_re =
     plus Digit @ lit ''.'' @ plus Space @ [One (Range CHR ''A'' CHR ''Z'')] @ plus final_topic_cls @ [Dollar]"

definition final_is_topic :: "string \<Rightarrow> bool" where
  "final_is_topic line =
     (rmatch final_topic_re line \<noteq> None \<and> length line > 15 \<and> \<not> startswith line ''Q:''
      \<and> CHR ''?'' \<notin> set line \<and> \<not> is_numbered_q line)"

text \<open>The inner \<open>while\<close> that looks for the answer, from index \<open>i\<close>: the index it stops at,
  \<open>found_answer\<close>, and \<open>processed_lines\<close>.\<close>

function final_look :: "string list \<Rightarrow> nat \<Rightarrow> oline list \<Rightarrow> nat \<times> bool \<times> oline list" where
  "final_look lines i processed_lines =
     (if i < length lines then
        (let next_line = strip (lines ! i) in
         if startswith next_line ''A:'' then
           (let answer_text = collapse_ws (strip (drop 2 next_line)) in
            (i, True, if answer_text \<noteq> [] then processed_lines @ [Answer answer_text, Blank]
                      else processed_lines))
         else if next_line \<noteq> [] \<and> \<not> startswith next_line ''Q:''
           then final_look lines (i + 1) processed_lines
         else (i, False, processed_lines))
      else (i, False, processed_lines))"
  by pat_completeness auto
termination
  by (relation "measure (\<lambda>(lines, i, out). length lines - i)") auto

declare final_look.simps [simp del]

text \<open>After a question: the look for the answer, \<open>i -= 1\<close> when none was found, \<open>i += 1\<close>.\<close>

definition final_after_q :: "string list \<Rightarrow> nat \<Rightarrow> oline list \<Rightarrow> nat \<times> oline list" where
  "final_after_q lines i processed_lines =
     (case final_look lines (i + 1) processed_lines of
        (j, found_answer, out) \<Rightarrow> ((if found_answer then j else j - 1) + 1, out))"

lemma final_look_index: "final_look lines i out = (j, f, out') \<Longrightarrow> i \<le> j"
proof (induction lines i out rule: final_look.induct)
  case (1 lines i processed_lines)
  show ?case
  proof (cases "i < length lines \<and> \<not> startswith (strip (lines ! i)) ''A:''
                \<and> strip (lines ! i) \<noteq> [] \<and> \<not> startswith (strip (lines ! i)) ''Q:''")
    case True
    then have "final_look lines (i + 1) processed_lines = (j, f, out')"
      using "1.prems" by (subst (asm) final_look.simps) simp
    with True "1.IH" have "i + 1 \<le> j" by simp
    then show ?thesis by simp
  next
    case False
    then show ?thesis
      using "1.prems" by (subst (asm) final_look.simps) (auto simp: Let_def split: if_splits)
  qed
qed

lemma final_after_q_index: "i < fst (final_after_q lines i out)"
proof (cases "final_look lines (i + 1) out")
  case (fields j f out')
  then have "i + 1 \<le> j" by (rule final_look_index)
  with fields show ?thesis by (simp add: final_after_q_def)
qed

text \<open>The outer \<open>while i < len(lines)\<close>, from index \<open>i\<close>, returning \<open>processed_lines\<close>.\<close>

function final_loop :: "string list \<Rightarrow> nat \<Rightarrow> oline list \<Rightarrow> nat \<Rightarrow> oline list" where
  "final_loop lines i processed_lines question_number =
     (if i < length lines then
        (let line = strip (lines ! i) in
         if line = [] \<and> processed_lines = []
           then final_loop lines (i + 1) processed_lines question_number
         else if final_is_topic line
           then final_loop lines (i + 1) (processed_lines @ [Topic ([nl] @ ''## '' @ line), Blank]) 1
         else if startswith line ''Q:'' then
           final_loop lines
             (fst (final_after_q lines i
                     (processed_lines @ [Question question_number (strip (drop 2 line))])))
             (snd (final_after_q lines i
                     (processed_lines @ [Question question_number (strip (drop 2 line))])))
             (question_number + 1)
         else final_loop lines (i + 1) processed_lines question_number)
      else processed_lines)"
  by pat_completeness auto
termination
proof (relation "measure (\<lambda>(lines, i, out, qn). length lines - i)", goal_cases)
  case (4 lines i out qn line)
  have "i < fst (final_after_q lines i (out @ [Question qn (strip (drop 2 line))]))"
    by (rule final_after_q_index)
  with 4 show ?case by simp
qed auto

declare final_loop.simps [simp del]

definition clean_db_final_out :: "string \<Rightarrow> oline list" where
  "clean_db_final_out content = final_loop (split_nl (remove_fluff major_fluff content)) 0 [] 1"

text \<open>The file written and the three counts printed.\<close>

definition clean_db_final :: "string \<Rightarrow> string \<times> nat \<times> nat \<times> nat" where
  "clean_db_final content =
     (let processed_lines = map render (clean_db_final_out content) in
      (join_nl processed_lines,
       count_topics processed_lines, count_questions processed_lines, count_answers processed_lines))"

section \<open>process_db_qa_improved.py\<close>

definition improved_fluff_patterns :: "item list list" where
  "improved_fluff_patterns =
    [ ilit ''If you want, I can expand this'' @ [Lazy AnyCh] @ ilit ''Do you want me to do that next?'',
      ilit ''You said:'' @ [Greedy Space] @ ilit ''Proceed'' @ [Greedy Space] @ ilit ''ChatGPT said:''
        @ [Greedy Space] @ ilit ''Perfect.'',
      ilit ''Perfect. Here's a comprehensive'' @ [Lazy AnyCh] @ ilit ''migrations.'',
      ilit ''Do you want me to'' @ [Lazy AnyCh],
      ilit ''I can expand'' @ [Lazy AnyCh] @ ilit ''specifically.'',
      ilit ''continuing from what we've covered'' @ [Lazy AnyCh],
      ilit ''covering'' @ [Lazy AnyCh] @ ilit ''cloud operations specifically.'',
      ilit ''Comprehensive Practical DevOps DB Q&A'',
      ilit ''Here's a comprehensive'' @ [Lazy AnyCh] ]"

text \<open>\<open>re.match(r'^(\d+)\.\s+[A-Z][a-zA-Z\s&]+$', line)\<close>.\<close>

definition improved_topic_cls :: cls where
  "improved_topic_cls =
     Or (Range CHR ''a'' CHR ''z'') (Or (Range CHR ''A'' CHR ''Z'') (Or Space (Ch CHR ''&'')))"

definition improved_topic_re :: "item list" where
  "improved_topic_re =
     plus Digit @ lit ''.'' @ plus Space @ [One (Range CHR ''A'' CHR ''Z'')] @ plus improved_topic_cls @ [Dollar]"

definition improved_is_topic :: "string \<Rightarrow> bool" where
  "improved_is_topic line =
     (rmatch improved_topic_re line \<noteq> None \<and> length line > 20 \<and> \<not> startswith line ''Q:''
      \<and> CHR ''?'' \<notin> set line)"

definition improved_skip_patterns :: "item list list" where
  "improved_skip_patterns =
    [ ilit ''Perfect.'',
      ilit ''You said:'',
      ilit ''ChatGPT said:'',
      ilit ''If you want'',
      ilit ''Do you want'',
      ilit ''Here's a'',
      plus Digit @ ilit ''+'' @ [Greedy (NotCh nl)] @ ilit ''practical'',
      ilit ''covering'' @ [Greedy (NotCh nl)] @ ilit ''specifically'',
      ilit ''I can expand'',
      ilit ''continuing from'' ]"

text \<open>The inner \<open>while\<close> that looks for the answer, from index \<open>i\<close>: the value of \<open>i\<close> when
  it is left (after \<open>i -= 1\<close> in the last branch) and \<open>processed_lines\<close>.\<close>

function improved_look :: "string list \<Rightarrow> nat \<Rightarrow> oline list \<Rightarrow> nat \<times> oline list" where
  "improved_look lines i processed_lines =
     (if i < length lines then
        (let next_line = strip (lines ! i) in
         if startswith next_line ''A:'' then
           (let answer_text = collapse_ws (strip (drop 2 next_line)) in
            (i, if answer_text \<noteq> [] then processed_lines @ [Answer answer_text, Blank]
                else processed_lines))
         else if next_line = [] then improved_look lines (i + 1) processed_lines
         else (i - 1, processed_lines))
      else (i, processed_lines))"
  by pat_completeness auto
termination
  by (relation "measure (\<lambda>(lines, i, out). length lines - i)") auto

declare improved_look.simps [simp del]

lemma improved_look_index: "improved_look lines i out = (j, out') \<Longrightarrow> i - 1 \<le> j"
proof (induction lines i out rule: improved_look.induct)
  case (1 lines i processed_lines)
  show ?case
  proof (cases "i < length lines \<and> \<not> startswith (strip (lines ! i)) ''A:'' \<and> strip (lines ! i) = []")
    case True
    then have "improved_look lines (i + 1) processed_lines = (j, out')"
      using "1.prems" by (subst (asm) improved_look.simps) (simp add: startswith_def)
    with True "1.IH" have "i + 1 - 1 \<le> j" by (simp add: startswith_def)
    then show ?thesis by simp
  next
    case False
    then show ?thesis
      using "1.prems" by (subst (asm) improved_look.simps) (auto simp: Let_def split: if_splits)
  qed
qed

text \<open>The outer \<open>while i < len(lines)\<close>; \<open>current_topic\<close> and \<open>global_question_counter\<close> are
  written and never read. The last two branches both only advance \<open>i\<close>.\<close>

function improved_loop :: "string list \<Rightarrow> nat \<Rightarrow> oline list \<Rightarrow> nat \<Rightarrow> oline list" where
  "improved_loop lines i processed_lines question_counter =
     (if i < length lines then
        (let line = strip (lines ! i) in
         if line = [] \<and> processed_lines = []
           then improved_loop lines (i + 1) processed_lines question_counter
         else if improved_is_topic line
           then improved_loop lines (i + 1) (processed_lines @ [Topic ([nl] @ ''## '' @ line @ [nl])]) 1
         else if startswith line ''Q:'' then
           improved_loop lines
             (fst (improved_look lines (i + 1)
                     (processed_lines @ [Question question_counter (strip (drop 2 line))])) + 1)
             (snd (improved_look lines (i + 1)
                     (processed_lines @ [Question question_counter (strip (drop 2 line))])))
             (question_counter + 1)
         else if should_skip improved_skip_patterns line
           then improved_loop lines (i + 1) processed_lines question_counter
         else improved_loop lines (i + 1) processed_lines question_counter)
      else processed_lines)"
  by pat_completeness auto
termination
proof (relation "measure (\<lambda>(lines, i, out, qn). length lines - i)", goal_cases)
  case (4 lines i out qn line)
  obtain j out' where r: "improved_look lines (i + 1) (out @ [Question qn (strip (drop 2 line))]) = (j, out')"
    by (cases "improved_look lines (i + 1) (out @ [Question qn (strip (drop 2 line))])")
  then have "i + 1 - 1 \<le> j" by (rule improved_look_index)
  with 4 r show ?case by simp
qed auto

declare improved_loop.simps [simp del]

definition process_db_qa_improved_out :: "string \<Rightarrow> oline list" where
  "process_db_qa_improved_out content =
     improved_loop (split_nl (remove_fluff improved_fluff_patterns content)) 0 [] 1"

definition process_db_qa_improved :: "string \<Rightarrow> string \<times> nat \<times> nat \<times> nat" where
  "process_db_qa_improved content =
     (let processed_lines = map render (process_db_qa_improved_out content) in
      (join_nl processed_lines,
       count_topics processed_lines, count_questions processed_lines, count_answers processed_lines))"

section \<open>reorder_questions.py\<close>

text \<open>\<open>\d+\.\s*Q:\<close> is the pattern \<open>numbered_q\<close>. The first loop: the parts of
  \<open>re.split(r'(\d+\.\s*Q:)', content)\<close> are gathered into \<open>qa_pairs\<close>; the state is
  \<open>qa_pairs\<close> and \<open>current_qa\<close>.\<close>

definition gather_step :: "string list \<times> string \<Rightarrow> string \<Rightarrow> string list \<times> string" where
  "gather_step st part =
     (let qa_pairs = fst st; current_qa = snd st in
      if rmatch numbered_q part \<noteq> None then
        (if strip current_qa \<noteq> [] then (qa_pairs @ [strip current_qa], part) else (qa_pairs, part))
      else if strip part \<noteq> [] then (qa_pairs, current_qa @ part)
      else st)"

definition qa_pairs_of :: "string \<Rightarrow> string list" where
  "qa_pairs_of content =
     (let st = foldl gather_step ([], []) (re_split numbered_q [] content);
          qa_pairs = fst st; current_qa = snd st in
      if strip current_qa \<noteq> [] then qa_pairs @ [strip current_qa] else qa_pairs)"

text \<open>\<open>re.match(r'(\d+)\.\s*Q:\s*([^\n]+)', qa)\<close> with its two groups.\<close>

definition question_re :: "item list" where
  "question_re =
     [Mark] @ plus Digit @ [Mark] @ lit ''.'' @ [Greedy Space] @ lit ''Q:'' @ [Greedy Space]
     @ [Mark] @ plus (NotCh nl) @ [Mark]"

text \<open>\<open>re.search(r'A:\s*([^\n].*?)(?=\n\d+\.\s*Q:|\Z)', qa, re.DOTALL)\<close> with its group.\<close>

definition answer_re :: "item list" where
  "answer_re =
     lit ''A:'' @ [Greedy Space] @ [Mark, One (NotCh nl), Lazy AnyCh, Mark,
       Look [[One (Ch nl)] @ numbered_q, [EndZ]]]"

text \<open>The fallback \<open>for line in lines\<close> over \<open>qa.split('\n')\<close>, with \<open>found_answer\<close> and
  \<open>answer_lines\<close>; \<open>break\<close> ends the recursion.\<close>

fun scan_answer :: "string list \<Rightarrow> bool \<Rightarrow> string list \<Rightarrow> string list" where
  "scan_answer [] found_answer answer_lines = answer_lines"
| "scan_answer (line # lines) found_answer answer_lines =
     (if startswith (strip line) ''A:''
        then scan_answer lines True (answer_lines @ [strip (drop 2 (strip line))])
      else if found_answer \<and> strip line \<noteq> [] \<and> rmatch numbered_q line = None
        then scan_answer lines found_answer (answer_lines @ [strip line])
      else if found_answer \<and> rmatch numbered_q line \<noteq> None
        then answer_lines
      else scan_answer lines found_answer answer_lines)"

text \<open>\<open>' '.join(xs)\<close>.\<close>

fun join_sp :: "string list \<Rightarrow> string" where
  "join_sp [] = []"
| "join_sp [x] = x"
| "join_sp (x # y # ys) = x @ '' '' @ join_sp (y # ys)"

record pair =
  original_num :: nat
  question :: string
  answer :: string

text \<open>The body of \<open>for qa in qa_pairs\<close> up to the test \<open>if answer_text\<close>: what is read from one
  entry, \<open>None\<close> when the question pattern does not match; \<open>int\<close> is called first and may
  raise.\<close>

definition extract_pair :: "string \<Rightarrow> error + pair option" where
  "extract_pair qa =
     (case rmatch question_re qa of
        None \<Rightarrow> Inr None
      | Some m \<Rightarrow>
          (case int_of (between (m ! 0) (m ! 1)) of
             Inl e \<Rightarrow> Inl e
           | Inr n \<Rightarrow>
               Inr (Some \<lparr> original_num = n,
                      question = strip (between (m ! 2) (m ! 3)),
                      answer =
                        (case re_search answer_re qa of
                           Some (start, am) \<Rightarrow> strip (between (am ! 0) (am ! 1))
                         | None \<Rightarrow> strip (join_sp (scan_answer (split_nl qa) False []))) \<rparr>)))"

text \<open>The loop \<open>for qa in qa_pairs\<close>: the entries read, in order, when no \<open>int\<close> raises.\<close>

fun extracted :: "string list \<Rightarrow> error + pair list" where
  "extracted [] = Inr []"
| "extracted (qa # qa_pairs) =
     (case extract_pair qa of
        Inl e \<Rightarrow> Inl e
      | Inr r \<Rightarrow>
          (case extracted qa_pairs of
             Inl e \<Rightarrow> Inl e
           | Inr ps \<Rightarrow> Inr (case r of None \<Rightarrow> ps | Some p \<Rightarrow> p # ps)))"

text \<open>\<open>structured_pairs\<close> before the sort: the entries read, those with an empty answer left out.\<close>

definition structured_pairs :: "string list \<Rightarrow> error + pair list" where
  "structured_pairs qa_pairs =
     (case extracted qa_pairs of Inl e \<Rightarrow> Inl e | Inr ps \<Rightarrow> Inr (filter (\<lambda>p. answer p \<noteq> []) ps))"

text \<open>\<open>structured_pairs.sort(key=lambda x: x['original_num'])\<close>: Python's sort is stable,
  which determines the result.\<close>

definition sort_pairs :: "pair list \<Rightarrow> pair list" where
  "sort_pairs ps = sort_key original_num ps"

text \<open>The loop \<open>for i, pair in enumerate(structured_pairs, 1)\<close> that builds \<open>output_lines\<close>.\<close>

fun emit :: "nat \<Rightarrow> pair list \<Rightarrow> string list" where
  "emit i [] = []"
| "emit i (p # ps) =
     [show_nat i @ ''. Q: '' @ question p, ''A: '' @ answer p, []] @ emit (i + 1) ps"

definition reorder_pairs :: "string \<Rightarrow> error + pair list" where
  "reorder_pairs content =
     (case structured_pairs (qa_pairs_of content) of Inl e \<Rightarrow> Inl e | Inr ps \<Rightarrow> Inr (sort_pairs ps))"

definition reorder_output_lines :: "string \<Rightarrow> error + string list" where
  "reorder_output_lines content =
     (case reorder_pairs content of Inl e \<Rightarrow> Inl e | Inr ps \<Rightarrow> Inr (emit 1 ps))"

text \<open>The file written and the number printed, \<open>len(structured_pairs)\<close>; nothing is written
  when \<open>int\<close> has raised.\<close>

definition reorder_questions :: "string \<Rightarrow> error + string \<times> nat" where
  "reorder_questions content =
     (case reorder_pairs content of
        Inl e \<Rightarrow> Inl e
      | Inr ps \<Rightarrow> Inr (join_nl (emit 1 ps), length ps))"

text \<open>The numeric labels the loop passes to \<open>int\<close>: group 1 of the question pattern, for
  the entries it matches.\<close>

definition label_of :: "string \<Rightarrow> string option" where
  "label_of qa = map_option (\<lambda>m. between (m ! 0) (m ! 1)) (rmatch question_re qa)"

definition labels :: "string \<Rightarrow> string list" where
  "labels content = List.map_filter label_of (qa_pairs_of content)"

section \<open>simple_clean.py\<close>

text \<open>The list \<open>fluff_patterns\<close>, applied with \<open>re.DOTALL | re.IGNORECASE\<close>.\<close>

definition upto_dot :: "item list" where
  "upto_dot = [Greedy (NotCh CHR ''.'')] @ ilit ''.''"

definition simple_fluff_patterns :: "item list list" where
  "simple_fluff_patterns =
    [ ilit '' I can keep going and expand this all the way to 100+ questions'' @ upto_dot,
      ilit '' Do you want me to continue to #100?'' @ upto_dot,
      ilit '' You said:'' @ [Greedy Space] @ ilit ''Proceed'' @ [Greedy Space] @ ilit ''ChatGPT said:''
        @ [Greedy Space] @ ilit ''Perfect.'' @ upto_dot,
      ilit '' If you want, I can continue'' @ upto_dot,
      ilit '' Do you want me to proceed with that?'',
      ilit '' Do you want me to continue with that?'',
      ilit '' Do you want me to make that next?'',
      ilit '' I can also create'' @ upto_dot,
      ilit '' This brings us to '' @ plus Digit @ upto_dot,
      ilit '' We've now covered'' @ upto_dot,
      ilit '' At this point'' @ upto_dot,
      ilit ('' to #100? Perfect. Let's continue expanding your practical CI/CD interview Q&A from #66 onward, ''
            @ ''keeping it highly realistic, scenario-driven, and DevOps-focused.''),
      ilit '' Perfect. Let's continue'' @ [Greedy (NotCh CHR ''.'')] @ ilit ''DevOps-focused.'',
      ilit '' continuing from #'' @ plus Digit @ ilit '' onward'' @ upto_dot,
      ilit '' from #'' @ plus Digit @ ilit '' all the way to'' @ upto_dot,
      ilit '' going into extreme'' @ upto_dot,
      ilit '' covering'' @ [Greedy (NotCh CHR ''.'')] @ ilit ''interview'' @ upto_dot,
      ilit '' giving you a'' @ [Greedy (NotCh CHR ''.'')] @ ilit ''Q&A'' @ upto_dot,
      ilit '' create a'' @ [Greedy (NotCh CHR ''.'')] @ ilit ''master-level'' @ upto_dot,
      ilit '' DevOps interview'' @ upto_dot,
      ilit '' me to continue.'',
      ilit '' me to proceed.'' ]"

text \<open>\<open>re.sub(r'  +', ' ', s)\<close> and \<open>re.sub(r'\.+', '.', s)\<close>.\<close>

definition double_spaces :: "item list" where
  "double_spaces = lit '' '' @ plus (Ch CHR '' '')"

definition periods :: "item list" where
  "periods = plus (Ch CHR ''.'')"

text \<open>The content written: the fluff patterns, then the two clean-ups.\<close>

definition simple_clean :: "string \<Rightarrow> string" where
  "simple_clean content =
     re_sub periods ''.'' (re_sub double_spaces '' '' (remove_fluff simple_fluff_patterns content))"

section \<open>Collapsing whitespace\<close>

text \<open>A text in which every whitespace character is a single space with no whitespace
  character after it.\<close>

fun ws_normal :: "string \<Rightarrow> bool" where
  "ws_normal [] = True"
| "ws_normal [c] = (is_space c \<longrightarrow> c = CHR '' '')"
| "ws_normal (c # d # r) = ((is_space c \<longrightarrow> c = CHR '' '' \<and> \<not> is_space d) \<and> ws_normal (d # r))"

lemma rmatch_greedy_space: "rmatch [Greedy Space] s = Some [dropWhile is_space s]"
  by (induction s) auto

lemma rmatch_plus_space:
  "rmatch (plus Space) s =
     (case s of [] \<Rightarrow> None | x # xs \<Rightarrow> if is_space x then Some [dropWhile is_space xs] else None)"
  by (cases s) (simp_all add: plus_def rmatch_greedy_space)

lemma collapse_ws_Nil: "collapse_ws [] = []"
  by (simp add: collapse_ws_def re_sub.simps rmatch_plus_space)

lemma collapse_ws_Cons:
  "collapse_ws (x # xs) =
     (if is_space x then CHR '' '' # collapse_ws (dropWhile is_space xs) else x # collapse_ws xs)"
  unfolding collapse_ws_def
  by (subst re_sub.simps) (simp add: rmatch_plus_space less_Suc_eq_le length_dropWhile_le)

lemma collapse_ws_head:
  "s \<noteq> [] \<Longrightarrow> \<not> is_space (hd s) \<Longrightarrow> collapse_ws s \<noteq> [] \<and> hd (collapse_ws s) = hd s"
  by (cases s) (simp_all add: collapse_ws_Cons)

lemma ws_normal_Cons:
  "ws_normal t \<Longrightarrow> (is_space x \<longrightarrow> x = CHR '' '' \<and> (t = [] \<or> \<not> is_space (hd t))) \<Longrightarrow> ws_normal (x # t)"
  by (cases t) auto

lemma ws_normal_collapse: "ws_normal (collapse_ws s)"
proof (induction s rule: length_induct)
  case (1 s)
  show ?case
  proof (cases s)
    case Nil
    then show ?thesis by (simp add: collapse_ws_Nil)
  next
    case (Cons x xs)
    show ?thesis
    proof (cases "is_space x")
      case True
      let ?d = "dropWhile is_space xs"
      have "length ?d < length s" using Cons by (simp add: less_Suc_eq_le length_dropWhile_le)
      with 1 have n: "ws_normal (collapse_ws ?d)" by blast
      have h: "collapse_ws ?d = [] \<or> \<not> is_space (hd (collapse_ws ?d))"
      proof (cases "?d = []")
        case True
        then show ?thesis by (simp only: collapse_ws_Nil simp_thms)
      next
        case False
        then have "\<not> is_space (hd ?d)" by (rule hd_dropWhile)
        with False show ?thesis using collapse_ws_head [of ?d] by simp
      qed
      have "ws_normal (CHR '' '' # collapse_ws ?d)"
        using n h by (intro ws_normal_Cons) auto
      with True Cons show ?thesis by (simp add: collapse_ws_Cons)
    next
      case False
      have "ws_normal (collapse_ws xs)" using 1 Cons by simp
      with False Cons show ?thesis by (simp add: collapse_ws_Cons ws_normal_Cons)
    qed
  qed
qed

lemma ws_normal_tl: "ws_normal (c # t) \<Longrightarrow> ws_normal t"
  by (cases t) auto

lemma ws_normal_single: "ws_normal (c # t) \<Longrightarrow> ws_normal [c]"
  by (cases t) auto

lemma ws_normal_append_right: "ws_normal (a @ b) \<Longrightarrow> ws_normal b"
  by (induction a) (auto dest: ws_normal_tl)

lemma ws_normal_append_left: "ws_normal (a @ b) \<Longrightarrow> ws_normal a"
proof (induction a)
  case Nil
  show ?case by simp
next
  case (Cons c a)
  show ?case
  proof (cases a)
    case Nil
    with Cons.prems show ?thesis using ws_normal_single [of c b] by simp
  next
    case (Cons d r)
    with Cons.prems Cons.IH show ?thesis by simp
  qed
qed

lemma strip_decomp: "\<exists>a b. s = a @ strip s @ b"
proof -
  let ?t = "dropWhile is_space s"
  have "s = takeWhile is_space s @ ?t" by simp
  moreover have "?t = rev (dropWhile is_space (rev ?t)) @ rev (takeWhile is_space (rev ?t))"
    by (metis rev_append rev_rev_ident takeWhile_dropWhile_id)
  ultimately show ?thesis unfolding strip_def by metis
qed

lemma ws_normal_strip: "ws_normal s \<Longrightarrow> ws_normal (strip s)"
  by (metis strip_decomp ws_normal_append_left ws_normal_append_right)

lemma ws_normal_set: "ws_normal a \<Longrightarrow> c \<in> set a \<Longrightarrow> is_space c \<Longrightarrow> c = CHR '' ''"
  by (induction a rule: ws_normal.induct) auto

lemma ws_normal_adjacent: "ws_normal a \<Longrightarrow> Suc i < length a \<Longrightarrow> \<not> (is_space (a ! i) \<and> is_space (a ! Suc i))"
proof (induction a arbitrary: i rule: ws_normal.induct)
  case (3 c d r)
  then show ?case by (cases i) auto
qed auto

lemma ws_normal_qa_clean: "ws_normal (qa_clean_answer x)"
  unfolding qa_clean_answer_def using ws_normal_collapse [unfolded collapse_ws_def] by (rule ws_normal_strip)

section \<open>Reachable states of the cleaners\<close>

text \<open>
  The states \<open>(processed_lines, question_number)\<close> that the loops of the three cleaners can
  be in, over the lines of the cleaned content: every element is appended by one of the
  branches below. Only \<open>process_db_qa\<close> passes lines through; \<open>po\<close> says whether the loop does.
\<close>

inductive reach :: "bool \<Rightarrow> string list \<Rightarrow> oline list \<Rightarrow> nat \<Rightarrow> bool"
  for po :: bool and lines :: "string list" where
  start: "reach po lines [] 1"
| topic: "reach po lines out qn \<Longrightarrow> raw \<in> set lines \<Longrightarrow> tail = [] \<or> tail = [nl]
          \<Longrightarrow> reach po lines (out @ [Topic (nl # ''## '' @ strip raw @ tail)]) 1"
| blank: "reach po lines out qn \<Longrightarrow> reach po lines (out @ [Blank]) qn"
| question: "reach po lines out qn \<Longrightarrow> raw \<in> set lines \<Longrightarrow> startswith (strip raw) ''Q:''
          \<Longrightarrow> reach po lines (out @ [Question qn (strip (drop 2 (strip raw)))]) (qn + 1)"
| answer: "reach po lines out qn \<Longrightarrow> ws_normal a \<Longrightarrow> a \<noteq> []
          \<Longrightarrow> reach po lines (out @ [Answer a]) qn"
| other: "reach po lines out qn \<Longrightarrow> po \<Longrightarrow> raw \<in> set lines \<Longrightarrow> \<not> should_skip qa_skip_patterns (strip raw)
          \<Longrightarrow> reach po lines (out @ [Other (strip raw)]) qn"

lemma reach_answer_blank:
  "reach po lines out qn \<Longrightarrow> ws_normal a \<Longrightarrow> a \<noteq> [] \<Longrightarrow> reach po lines (out @ [Answer a, Blank]) qn"
  using reach.blank [OF reach.answer, of po lines out qn a] by simp

lemma qa_step_reach:
  assumes "reach True lines out qn" and "raw \<in> set lines"
  shows "reach True lines (fst (qa_step (out, qn) raw)) (snd (qa_step (out, qn) raw))"
proof -
  have t: "reach True lines (out @ [Topic ([nl] @ ''## '' @ strip raw @ [nl])]) 1"
    using reach.topic [OF assms, of "[nl]"] by simp
  have q: "startswith (strip raw) ''Q:'' \<Longrightarrow>
           reach True lines (out @ [Question qn (strip (drop 2 (strip raw)))]) (qn + 1)"
    using assms by (rule reach.question)
  have a: "qa_clean_answer x \<noteq> [] \<Longrightarrow> reach True lines (out @ [Answer (qa_clean_answer x), Blank]) qn" for x
    using assms(1) ws_normal_qa_clean by (rule reach_answer_blank)
  have o: "\<not> should_skip qa_skip_patterns (strip raw) \<Longrightarrow> reach True lines (out @ [Other (strip raw)]) qn"
    using assms(1) TrueI assms(2) by (rule reach.other)
  show ?thesis
    using assms(1) t q a o by (auto simp add: qa_step_def Let_def)
qed

lemma qa_foldl_reach:
  "reach True lines (fst st) (snd st) \<Longrightarrow> set rs \<subseteq> set lines
   \<Longrightarrow> reach True lines (fst (foldl qa_step st rs)) (snd (foldl qa_step st rs))"
proof (induction rs arbitrary: st)
  case Nil
  then show ?case by simp
next
  case (Cons r rs)
  have "reach True lines (fst (qa_step st r)) (snd (qa_step st r))"
    using qa_step_reach [of lines "fst st" "snd st" r] Cons.prems by simp
  with Cons show ?case by simp
qed

lemma qa_lines_reach: "\<exists>qn. reach True lines (qa_lines lines) qn"
  unfolding qa_lines_def
  using qa_foldl_reach [of lines "([], 1)" lines] reach.start [of True lines] by auto

lemma final_look_reach:
  "reach po lines out qn \<Longrightarrow> reach po lines (snd (snd (final_look lines i out))) qn"
proof (induction lines i out rule: final_look.induct)
  case (1 lines i processed_lines)
  show ?case
  proof (cases "i < length lines")
    case False
    with "1.prems" show ?thesis by (subst final_look.simps) simp
  next
    case True
    let ?l = "strip (lines ! i)"
    show ?thesis
    proof (cases "startswith ?l ''A:''")
      case A: True
      have "collapse_ws x \<noteq> [] \<Longrightarrow> reach po lines (processed_lines @ [Answer (collapse_ws x), Blank]) qn" for x
        using "1.prems" ws_normal_collapse by (rule reach_answer_blank)
      with True A "1.prems" show ?thesis by (subst final_look.simps) (simp add: Let_def)
    next
      case A: False
      show ?thesis
      proof (cases "?l \<noteq> [] \<and> \<not> startswith ?l ''Q:''")
        case B: True
        have "reach po lines (snd (snd (final_look lines (i + 1) processed_lines))) qn"
          using "1.IH" [OF True refl A] B "1.prems" by simp
        with True A B show ?thesis by (subst final_look.simps) (simp add: Let_def)
      next
        case B: False
        with True A "1.prems" show ?thesis by (subst final_look.simps) (auto simp add: Let_def)
      qed
    qed
  qed
qed

lemma final_after_q_reach:
  "reach po lines out qn \<Longrightarrow> reach po lines (snd (final_after_q lines i out)) qn"
  using final_look_reach [of po lines out qn "i + 1"]
  by (cases "final_look lines (i + 1) out") (simp add: final_after_q_def)

lemma final_loop_reach:
  "reach po lines out qn \<Longrightarrow> \<exists>qn'. reach po lines (final_loop lines i out qn) qn'"
proof (induction lines i out qn rule: final_loop.induct)
  case (1 lines i out qn)
  let ?l = "strip (lines ! i)"
  let ?q = "out @ [Question qn (strip (drop 2 ?l))]"
  show ?case
  proof (cases "i < length lines")
    case False
    with "1.prems" show ?thesis by (subst final_loop.simps) auto
  next
    case True
    then have mem: "lines ! i \<in> set lines" by simp
    consider (skip) "?l = [] \<and> out = []"
      | (topic) "\<not> (?l = [] \<and> out = [])" "final_is_topic ?l"
      | (quest) "\<not> (?l = [] \<and> out = [])" "\<not> final_is_topic ?l" "startswith ?l ''Q:''"
      | (rest) "\<not> (?l = [] \<and> out = [])" "\<not> final_is_topic ?l" "\<not> startswith ?l ''Q:''"
      by blast
    then show ?thesis
    proof cases
      case skip
      have eq: "final_loop lines i out qn = final_loop lines (i + 1) out qn"
        using True skip by (subst final_loop.simps) (auto simp add: Let_def)
      show ?thesis unfolding eq using "1.IH"(1) [OF True refl skip] "1.prems" .
    next
      case topic
      have eq: "final_loop lines i out qn
                  = final_loop lines (i + 1) (out @ [Topic ([nl] @ ''## '' @ ?l), Blank]) 1"
        using True topic by (subst final_loop.simps) (auto simp add: Let_def)
      have "reach po lines ((out @ [Topic (nl # ''## '' @ ?l @ [])]) @ [Blank]) 1"
        using "1.prems" mem by (intro reach.blank reach.topic) auto
      then have "reach po lines (out @ [Topic ([nl] @ ''## '' @ ?l), Blank]) 1" by simp
      then show ?thesis unfolding eq by (rule "1.IH"(2) [OF True refl topic])
    next
      case quest
      have eq: "final_loop lines i out qn
                  = final_loop lines (fst (final_after_q lines i ?q)) (snd (final_after_q lines i ?q)) (qn + 1)"
        using True quest by (subst final_loop.simps) (auto simp add: Let_def)
      have "reach po lines ?q (qn + 1)"
        using "1.prems" mem quest(3) by (rule reach.question)
      then have "reach po lines (snd (final_after_q lines i ?q)) (qn + 1)"
        by (rule final_after_q_reach)
      then show ?thesis unfolding eq by (rule "1.IH"(3) [OF True refl quest])
    next
      case rest
      have eq: "final_loop lines i out qn = final_loop lines (i + 1) out qn"
        using True rest by (subst final_loop.simps) (auto simp add: Let_def)
      show ?thesis unfolding eq using "1.IH"(4) [OF True refl rest] "1.prems" .
    qed
  qed
qed

lemma improved_look_reach:
  "reach po lines out qn \<Longrightarrow> reach po lines (snd (improved_look lines i out)) qn"
proof (induction lines i out rule: improved_look.induct)
  case (1 lines i processed_lines)
  show ?case
  proof (cases "i < length lines")
    case False
    with "1.prems" show ?thesis by (subst improved_look.simps) simp
  next
    case True
    let ?l = "strip (lines ! i)"
    show ?thesis
    proof (cases "startswith ?l ''A:''")
      case A: True
      have "collapse_ws x \<noteq> [] \<Longrightarrow> reach po lines (processed_lines @ [Answer (collapse_ws x), Blank]) qn" for x
        using "1.prems" ws_normal_collapse by (rule reach_answer_blank)
      with True A "1.prems" show ?thesis by (subst improved_look.simps) (simp add: Let_def)
    next
      case A: False
      show ?thesis
      proof (cases "?l = []")
        case B: True
        have "reach po lines (snd (improved_look lines (i + 1) processed_lines)) qn"
          using "1.IH" [OF True refl A B] "1.prems" by simp
        with True A B show ?thesis by (subst improved_look.simps) (simp add: Let_def)
      next
        case B: False
        with True A "1.prems" show ?thesis by (subst improved_look.simps) (simp add: Let_def)
      qed
    qed
  qed
qed

lemma improved_loop_reach:
  "reach po lines out qn \<Longrightarrow> \<exists>qn'. reach po lines (improved_loop lines i out qn) qn'"
proof (induction lines i out qn rule: improved_loop.induct)
  case (1 lines i out qn)
  let ?l = "strip (lines ! i)"
  let ?q = "out @ [Question qn (strip (drop 2 ?l))]"
  show ?case
  proof (cases "i < length lines")
    case False
    with "1.prems" show ?thesis by (subst improved_loop.simps) auto
  next
    case True
    then have mem: "lines ! i \<in> set lines" by simp
    consider (skip) "?l = [] \<and> out = []"
      | (topic) "\<not> (?l = [] \<and> out = [])" "improved_is_topic ?l"
      | (quest) "\<not> (?l = [] \<and> out = [])" "\<not> improved_is_topic ?l" "startswith ?l ''Q:''"
      | (fluff) "\<not> (?l = [] \<and> out = [])" "\<not> improved_is_topic ?l" "\<not> startswith ?l ''Q:''"
                "should_skip improved_skip_patterns ?l"
      | (rest) "\<not> (?l = [] \<and> out = [])" "\<not> improved_is_topic ?l" "\<not> startswith ?l ''Q:''"
                "\<not> should_skip improved_skip_patterns ?l"
      by blast
    then show ?thesis
    proof cases
      case skip
      have eq: "improved_loop lines i out qn = improved_loop lines (i + 1) out qn"
        using True skip by (subst improved_loop.simps) (auto simp add: Let_def)
      show ?thesis unfolding eq using "1.IH"(1) [OF True refl skip] "1.prems" .
    next
      case topic
      have eq: "improved_loop lines i out qn
                  = improved_loop lines (i + 1) (out @ [Topic ([nl] @ ''## '' @ ?l @ [nl])]) 1"
        using True topic by (subst improved_loop.simps) (auto simp add: Let_def)
      have "reach po lines (out @ [Topic (nl # ''## '' @ ?l @ [nl])]) 1"
        using "1.prems" mem by (rule reach.topic) simp
      then have "reach po lines (out @ [Topic ([nl] @ ''## '' @ ?l @ [nl])]) 1" by simp
      then show ?thesis unfolding eq by (rule "1.IH"(2) [OF True refl topic])
    next
      case quest
      have eq: "improved_loop lines i out qn
                  = improved_loop lines (fst (improved_look lines (i + 1) ?q) + 1)
                      (snd (improved_look lines (i + 1) ?q)) (qn + 1)"
        using True quest by (subst improved_loop.simps) (auto simp add: Let_def)
      have "reach po lines ?q (qn + 1)"
        using "1.prems" mem quest(3) by (rule reach.question)
      then have "reach po lines (snd (improved_look lines (i + 1) ?q)) (qn + 1)"
        by (rule improved_look_reach)
      then show ?thesis unfolding eq by (rule "1.IH"(3) [OF True refl quest])
    next
      case fluff
      have eq: "improved_loop lines i out qn = improved_loop lines (i + 1) out qn"
        using True fluff by (subst improved_loop.simps) (auto simp add: Let_def)
      show ?thesis unfolding eq using "1.IH"(4) [OF True refl fluff] "1.prems" .
    next
      case rest
      have eq: "improved_loop lines i out qn = improved_loop lines (i + 1) out qn"
        using True rest by (subst improved_loop.simps) (auto simp add: Let_def)
      show ?thesis unfolding eq using "1.IH"(5) [OF True refl rest] "1.prems" .
    qed
  qed
qed

text \<open>Each cleaner ends in a reachable state.\<close>

definition qa_cleaned :: "string \<Rightarrow> string list" where
  "qa_cleaned content = split_nl (remove_fluff qa_fluff_patterns content)"

definition final_cleaned :: "string \<Rightarrow> string list" where
  "final_cleaned content = split_nl (remove_fluff major_fluff content)"

definition improved_cleaned :: "string \<Rightarrow> string list" where
  "improved_cleaned content = split_nl (remove_fluff improved_fluff_patterns content)"

lemma qa_out_reach: "\<exists>qn. reach True (qa_cleaned content) (process_db_qa_out content) qn"
  unfolding process_db_qa_out_def qa_cleaned_def by (rule qa_lines_reach)

lemma final_out_reach: "\<exists>qn. reach False (final_cleaned content) (clean_db_final_out content) qn"
  unfolding clean_db_final_out_def final_cleaned_def by (rule final_loop_reach) (rule reach.start)

lemma improved_out_reach: "\<exists>qn. reach False (improved_cleaned content) (process_db_qa_improved_out content) qn"
  unfolding process_db_qa_improved_out_def improved_cleaned_def by (rule improved_loop_reach) (rule reach.start)

text \<open>What holds in every reachable state.\<close>

lemma reach_questions:
  "reach po lines out qn \<Longrightarrow>
     1 \<le> qn \<and> (\<forall>n t. Question n t \<in> set out \<longrightarrow>
        1 \<le> n \<and> (\<exists>raw\<in>set lines. startswith (strip raw) ''Q:'' \<and> t = strip (drop 2 (strip raw))))"
  by (induction rule: reach.induct) auto

lemma reach_answers: "reach po lines out qn \<Longrightarrow> Answer a \<in> set out \<Longrightarrow> ws_normal a \<and> a \<noteq> []"
  by (induction rule: reach.induct) auto

section \<open>Running the scripts on concrete inputs\<close>

text \<open>The defining equations, collected for evaluating a script on a given text.\<close>

lemmas run_defs =
  nl_def is_space_def is_digit_def in_range_def lower_def strip_def startswith_def
  digit_char_def digit_val_def digits_value_def int_max_str_digits_def int_of_def lit_def ilit_def plus_def between_def
  rmatch.simps(2,3,4) re_sub.simps re_split.simps(2) show_nat.simps
  remove_fluff_def collapse_ws_def numbered_q_def is_numbered_q_def
  count_topics_def count_questions_def count_answers_def written_def
  qa_fluff_patterns_def qa_topic_re_def arrow_re_def qa_clean_answer_def qa_skip_patterns_def
  should_skip_def qa_step_def qa_lines_def process_db_qa_out_def
  major_fluff_def final_topic_cls_def final_topic_re_def final_is_topic_def
  final_look.simps final_after_q_def final_loop.simps clean_db_final_out_def
  improved_fluff_patterns_def improved_topic_cls_def improved_topic_re_def improved_is_topic_def
  improved_skip_patterns_def improved_look.simps improved_loop.simps process_db_qa_improved_out_def
  gather_step_def qa_pairs_of_def question_re_def answer_re_def extract_pair_def label_of_def labels_def
  structured_pairs_def sort_pairs_def reorder_pairs_def reorder_output_lines_def
  List.map_filter_def Let_def
  upto_dot_def simple_fluff_patterns_def double_spaces_def periods_def simple_clean_def

lemma final_out_heading:
  "clean_db_final_out ''1. Database Operations & Reliability''
     = [Topic (nl # ''## 1. Database Operations & Reliability''), Blank]"
  by (simp add: run_defs)

lemma qa_out_heading:
  "process_db_qa_out ''1. Database Operations & Reliability''
     = [Topic (nl # ''## 1. Database Operations & Reliability'' @ [nl])]"
  by (simp add: run_defs)

section \<open>The lines of the written document\<close>

text \<open>The document written has the lines of the elements of \<open>processed_lines\<close>, in order.\<close>

lemma split_nl_nonempty [simp]: "split_nl s \<noteq> []"
  by (induction s) (auto split: list.splits)

lemma split_nl_append: "split_nl (a @ nl # b) = split_nl a @ split_nl b"
proof (induction a)
  case Nil
  show ?case by simp
next
  case (Cons c a)
  obtain p ps where "split_nl a = p # ps" by (cases "split_nl a") auto
  with Cons show ?case by simp
qed

lemma split_nl_no_nl: "nl \<notin> set s \<Longrightarrow> split_nl s = [s]"
  by (induction s) auto

lemma split_nl_pieces: "l \<in> set (split_nl s) \<Longrightarrow> nl \<notin> set l"
proof (induction s arbitrary: l)
  case Nil
  then show ?case by simp
next
  case (Cons c s)
  obtain p ps where ps: "split_nl s = p # ps" by (cases "split_nl s") auto
  with Cons show ?case by (auto split: if_splits)
qed

lemma split_join: "xs \<noteq> [] \<Longrightarrow> split_nl (join_nl xs) = concat (map split_nl xs)"
proof (induction xs rule: join_nl.induct)
  case (3 x y ys)
  then show ?case by (simp add: split_nl_append)
qed auto

lemma set_strip: "set (strip s) \<subseteq> set s"
proof -
  have "set (strip s) \<subseteq> set (dropWhile is_space s)"
    unfolding strip_def using set_dropWhileD by fastforce
  then show ?thesis using set_dropWhileD by fastforce
qed

lemma ws_normal_no_nl: "ws_normal a \<Longrightarrow> nl \<notin> set a"
  using ws_normal_set [of a nl] by (auto simp: is_space_def nl_def)

lemma digit_char_is_digit: "d < 10 \<Longrightarrow> is_digit (digit_char d)"
  by (simp add: is_digit_def digit_char_def del: set_simps)

lemma show_nat_digits: "show_nat n \<noteq> [] \<and> list_all is_digit (show_nat n)"
proof (induction n rule: show_nat.induct)
  case (1 n)
  show ?case
  proof (cases "n < 10")
    case True
    then show ?thesis by (subst (1 2) show_nat.simps) (simp add: digit_char_is_digit)
  next
    case False
    with 1 show ?thesis by (subst (1 2) show_nat.simps) (simp add: digit_char_is_digit)
  qed
qed

lemma rmatch_greedy_digits:
  "list_all is_digit ds \<Longrightarrow> \<not> is_digit x \<Longrightarrow> rmatch p (x # r) = Some m
   \<Longrightarrow> rmatch (Greedy Digit # p) (ds @ x # r) = Some m"
  by (induction ds) auto

lemma numbered_q_render: "is_numbered_q (show_nat n @ ''. Q: '' @ t)"
proof -
  obtain d ds where s: "show_nat n = d # ds" using show_nat_digits [of n] by (cases "show_nat n") auto
  then have d: "is_digit d" "list_all is_digit ds" using show_nat_digits [of n] by auto
  have "rmatch (lit ''.'' @ [Greedy Space] @ lit ''Q:'') (''. Q: '' @ t) = Some [CHR '' '' # t]"
    by (simp add: lit_def is_space_def)
  then have "rmatch (Greedy Digit # lit ''.'' @ [Greedy Space] @ lit ''Q:'') (ds @ ''. Q: '' @ t) = Some [CHR '' '' # t]"
    using rmatch_greedy_digits [OF d(2), of "CHR ''.''" _ "'' Q: '' @ t"] by (simp add: is_digit_def)
  with d(1) s show ?thesis by (simp add: is_numbered_q_def numbered_q_def plus_def)
qed

section \<open>Answer lines\<close>

lemma final_out_tab_answer:
  "clean_db_final_out (''Q: a\<newline>A: b '' @ [CHR 0x09, CHR ''c'']) = [Question 1 ''a'', Answer ''b c'', Blank]"
  by (simp add: run_defs)

text \<open>
  Claim C6. For every input text, the text of every answer line emitted by the three
  cleaners (\<open>A: \<close> followed by the answer text) has its whitespace collapsed: the only
  whitespace character in it is the space, no two whitespace characters are adjacent, and
  it contains no tab and no newline.
\<close>

theorem answers_whitespace_collapsed:
  assumes "Answer a \<in> set (clean_db_final_out content) \<union> set (process_db_qa_out content)
             \<union> set (process_db_qa_improved_out content)"
  shows "render (Answer a) = ''A: '' @ a
     \<and> (\<forall>c\<in>set a. is_space c \<longrightarrow> c = CHR '' '')
     \<and> (\<forall>i. Suc i < length a \<longrightarrow> \<not> (is_space (a ! i) \<and> is_space (a ! Suc i)))
     \<and> CHR 0x09 \<notin> set a \<and> nl \<notin> set a"
proof -
  have "ws_normal a"
    using assms final_out_reach [of content] qa_out_reach [of content] improved_out_reach [of content]
    by (auto dest: reach_answers)
  then have 1: "\<forall>c\<in>set a. is_space c \<longrightarrow> c = CHR '' ''"
    and 2: "\<forall>i. Suc i < length a \<longrightarrow> \<not> (is_space (a ! i) \<and> is_space (a ! Suc i))"
    by (auto dest: ws_normal_set ws_normal_adjacent)
  have "is_space (CHR 0x09)" "is_space nl" by (simp_all add: is_space_def nl_def)
  with 1 have "CHR 0x09 \<notin> set a \<and> nl \<notin> set a" by (auto simp: nl_def)
  with 1 2 show ?thesis by simp
qed

text \<open>An answer written with a space and a tab between two words, in \<open>clean_db_final\<close>.\<close>

theorem answers_whitespace_collapsed_witness:
  "Answer ''b c'' \<in> set (clean_db_final_out (''Q: a\<newline>A: b '' @ [CHR 0x09, CHR ''c'']))
   \<and> render (Answer ''b c'') = ''A: b c''
   \<and> CHR 0x09 \<notin> set ''b c'' \<and> nl \<notin> set ''b c''"
  using answers_whitespace_collapsed [of "''b c''" "''Q: a\<newline>A: b '' @ [CHR 0x09, CHR ''c'']"]
  unfolding final_out_tab_answer by (simp add: is_space_def)

section \<open>Question lines\<close>

text \<open>The lines of each kind of element appended to \<open>processed_lines\<close>.\<close>

lemma topic_lines:
  assumes "nl \<notin> set raw" and "tail = [] \<or> tail = [nl]"
  shows "split_nl (nl # ''## '' @ strip raw @ tail) = [[], ''## '' @ strip raw]
       \<or> split_nl (nl # ''## '' @ strip raw @ tail) = [[], ''## '' @ strip raw, []]"
proof -
  define X where "X = ''## '' @ strip raw"
  have n: "nl \<notin> set X"
    unfolding X_def using assms(1) set_strip [of raw] by (auto simp: nl_def)
  have "split_nl (X @ tail) = [X] \<or> split_nl (X @ tail) = [X, []]"
    using assms(2) split_nl_no_nl [OF n] split_nl_append [of X "[]"] by auto
  then have "split_nl (nl # X @ tail) = [[], X] \<or> split_nl (nl # X @ tail) = [[], X, []]"
    by auto
  then show ?thesis unfolding X_def by simp
qed

lemma question_lines:
  assumes "nl \<notin> set raw"
  shows "split_nl (show_nat n @ ''. Q: '' @ strip (drop 2 (strip raw)))
           = [show_nat n @ ''. Q: '' @ strip (drop 2 (strip raw))]"
proof -
  define t where "t = strip (drop 2 (strip raw))"
  have "set t \<subseteq> set (drop 2 (strip raw))" unfolding t_def by (rule set_strip)
  also have "\<dots> \<subseteq> set (strip raw)" by (rule set_drop_subset)
  also have "\<dots> \<subseteq> set raw" by (rule set_strip)
  finally have 1: "nl \<notin> set t" using assms by blast
  have "\<forall>c\<in>set (show_nat n). is_digit c"
    using show_nat_digits [of n] by (simp add: list_all_iff)
  moreover have "\<not> is_digit nl" by (simp add: is_digit_def nl_def)
  ultimately have 2: "nl \<notin> set (show_nat n)" by blast
  have 3: "nl \<notin> set ''. Q: ''" by (simp add: nl_def)
  have "nl \<notin> set (show_nat n @ ''. Q: '' @ t)"
    using 1 2 3 by (simp only: set_append Un_iff simp_thms not_False_eq_True)
  then show ?thesis unfolding t_def by (rule split_nl_no_nl)
qed

lemma answer_lines:
  assumes "ws_normal a"
  shows "split_nl (''A: '' @ a) = [''A: '' @ a]"
proof -
  have "nl \<notin> set a" using assms by (rule ws_normal_no_nl)
  moreover have "nl \<notin> set ''A: ''" by (simp add: nl_def)
  ultimately have "nl \<notin> set (''A: '' @ a)"
    by (simp only: set_append Un_iff simp_thms not_False_eq_True)
  then show ?thesis by (rule split_nl_no_nl)
qed

lemma other_lines: "nl \<notin> set raw \<Longrightarrow> split_nl (strip raw) = [strip raw]"
  using set_strip [of raw] by (intro split_nl_no_nl) blast

text \<open>Which lines match the pattern of a question line, and which start a heading.\<close>

lemma not_numbered_empty: "\<not> is_numbered_q []"
  by (simp add: is_numbered_q_def numbered_q_def plus_def)

lemma not_numbered_heading: "\<not> is_numbered_q (''## '' @ s)"
  by (simp add: is_numbered_q_def numbered_q_def plus_def is_digit_def)

lemma not_numbered_answer: "\<not> is_numbered_q (''A: '' @ s)"
  by (simp add: is_numbered_q_def numbered_q_def plus_def is_digit_def)

lemma not_heading_question: "\<not> startswith (show_nat n @ ''. Q: '' @ t) ''## ''"
proof -
  obtain d ds where s: "show_nat n = d # ds" using show_nat_digits [of n] by (cases "show_nat n") auto
  then have "is_digit d" using show_nat_digits [of n] by auto
  then have "d \<noteq> CHR ''#''" by (auto simp: is_digit_def)
  then show ?thesis by (simp add: s startswith_def)
qed

text \<open>An element appended by a loop is in order when each of its lines that matches the pattern
  of a question line is as the question branch writes it or, where the loop copies lines
  (\<open>po\<close>), is a line copied.\<close>

definition numbered_ok :: "bool \<Rightarrow> string list \<Rightarrow> oline \<Rightarrow> bool" where
  "numbered_ok po lines e =
     (\<forall>l\<in>set (split_nl (render e)). is_numbered_q l \<longrightarrow>
        (\<exists>n t. 1 \<le> n \<and> l = show_nat n @ ''. Q: '' @ t
           \<and> (\<exists>raw\<in>set lines. startswith (strip raw) ''Q:'' \<and> t = strip (drop 2 (strip raw))))
        \<or> (po \<and> (\<exists>raw\<in>set lines. l = strip raw)))"

lemma reach_counter: "reach po lines out qn \<Longrightarrow> 1 \<le> qn"
  by (induction rule: reach.induct) auto

lemma reach_numbered_ok:
  assumes "reach po lines out qn" and "\<forall>raw\<in>set lines. nl \<notin> set raw"
  shows "list_all (numbered_ok po lines) out"
  using assms
proof (induction rule: reach.induct)
  case start
  show ?case by simp
next
  case (topic out qn raw tail)
  have "numbered_ok po lines (Topic (nl # ''## '' @ strip raw @ tail))"
    using topic_lines [of raw tail] topic.prems topic.hyps(2,3) not_numbered_empty
      not_numbered_heading [of "strip raw"]
    unfolding numbered_ok_def render.simps by (auto simp del: split_nl.simps)
  with topic show ?case by simp
next
  case (blank out qn)
  have "numbered_ok po lines Blank" by (simp add: numbered_ok_def not_numbered_empty)
  with blank show ?case by simp
next
  case (question out qn raw)
  have "1 \<le> qn" using question.hyps(1) by (rule reach_counter)
  have n: "nl \<notin> set raw" using question.prems question.hyps(2) by blast
  have "numbered_ok po lines (Question qn (strip (drop 2 (strip raw))))"
    unfolding numbered_ok_def render.simps question_lines [OF n]
  proof (intro ballI impI disjI1)
    fix l
    assume "l \<in> set [show_nat qn @ ''. Q: '' @ strip (drop 2 (strip raw))]"
    then have l: "l = show_nat qn @ ''. Q: '' @ strip (drop 2 (strip raw))" by simp
    have "\<exists>raw'\<in>set lines. startswith (strip raw') ''Q:''
        \<and> strip (drop 2 (strip raw)) = strip (drop 2 (strip raw'))"
      using question.hyps(2,3) by (intro bexI [of _ raw] conjI refl)
    with l \<open>1 \<le> qn\<close>
    show "\<exists>n t. 1 \<le> n \<and> l = show_nat n @ ''. Q: '' @ t
        \<and> (\<exists>raw\<in>set lines. startswith (strip raw) ''Q:'' \<and> t = strip (drop 2 (strip raw)))"
      by (intro exI [of _ qn] exI [of _ "strip (drop 2 (strip raw))"] conjI)
  qed
  with question show ?case by simp
next
  case (answer out qn a)
  have "numbered_ok po lines (Answer a)"
    using answer_lines [OF answer.hyps(2)] not_numbered_answer [of a]
    unfolding numbered_ok_def render.simps by (auto simp del: split_nl.simps)
  with answer show ?case by simp
next
  case (other out qn raw)
  have "numbered_ok po lines (Other (strip raw))"
    using other_lines [of raw] other.prems other.hyps(2,3)
    unfolding numbered_ok_def render.simps by (auto simp del: split_nl.simps)
  with other show ?case by simp
qed

lemma written_numbered:
  assumes "reach po (split_nl s) out qn" and "l \<in> set (split_nl (join_nl (map render out)))"
    and "is_numbered_q l"
  shows "(\<exists>n t. 1 \<le> n \<and> l = show_nat n @ ''. Q: '' @ t
           \<and> (\<exists>raw\<in>set (split_nl s). startswith (strip raw) ''Q:'' \<and> t = strip (drop 2 (strip raw))))
        \<or> (po \<and> (\<exists>raw\<in>set (split_nl s). l = strip raw))"
proof (cases "out = []")
  case True
  with assms(2,3) show ?thesis using not_numbered_empty by simp
next
  case False
  have "\<forall>raw\<in>set (split_nl s). nl \<notin> set raw" using split_nl_pieces by blast
  with assms(1) have "list_all (numbered_ok po (split_nl s)) out"
    by (rule reach_numbered_ok)
  moreover have "split_nl (join_nl (map render out)) = concat (map split_nl (map render out))"
    using False by (intro split_join) simp
  ultimately obtain e where "e \<in> set out" "numbered_ok po (split_nl s) e" "l \<in> set (split_nl (render e))"
    using assms(2) by (auto simp: list_all_iff)
  then show ?thesis using assms(3) unfolding numbered_ok_def by blast
qed


lemma final_written: "fst (clean_db_final content) = written (clean_db_final_out content)"
  by (simp add: clean_db_final_def written_def Let_def)

lemma qa_written: "fst (process_db_qa content) = written (process_db_qa_out content)"
  by (simp add: process_db_qa_def written_def Let_def)

lemma improved_written: "fst (process_db_qa_improved content) = written (process_db_qa_improved_out content)"
  by (simp add: process_db_qa_improved_def written_def Let_def)

text \<open>A line of a written document that matches the pattern of a question line, in the form the
  question branch writes it: the counter, \<open>. Q: \<close>, and the text of a line that starts with
  \<open>Q:\<close>.\<close>

definition question_form :: "string list \<Rightarrow> string \<Rightarrow> bool" where
  "question_form lines l =
     (\<exists>n t. 1 \<le> n \<and> l = show_nat n @ ''. Q: '' @ t
        \<and> (\<exists>raw\<in>set lines. startswith (strip raw) ''Q:'' \<and> t = strip (drop 2 (strip raw))))"

lemma final_numbered_lines:
  assumes "l \<in> set (split_nl (fst (clean_db_final content)))" and "is_numbered_q l"
  shows "question_form (final_cleaned content) l"
proof -
  obtain qn where "reach False (split_nl (remove_fluff major_fluff content)) (clean_db_final_out content) qn"
    using final_out_reach [of content] unfolding final_cleaned_def by blast
  from written_numbered [OF this, of l] assms show ?thesis
    unfolding final_written written_def final_cleaned_def question_form_def by simp
qed

lemma improved_numbered_lines:
  assumes "l \<in> set (split_nl (fst (process_db_qa_improved content)))" and "is_numbered_q l"
  shows "question_form (improved_cleaned content) l"
proof -
  obtain qn where "reach False (split_nl (remove_fluff improved_fluff_patterns content))
      (process_db_qa_improved_out content) qn"
    using improved_out_reach [of content] unfolding improved_cleaned_def by blast
  from written_numbered [OF this, of l] assms show ?thesis
    unfolding improved_written written_def improved_cleaned_def question_form_def by simp
qed

lemma qa_numbered_lines:
  assumes "l \<in> set (split_nl (fst (process_db_qa content)))" and "is_numbered_q l"
  shows "question_form (qa_cleaned content) l \<or> (\<exists>raw\<in>set (qa_cleaned content). l = strip raw)"
proof -
  obtain qn where "reach True (split_nl (remove_fluff qa_fluff_patterns content)) (process_db_qa_out content) qn"
    using qa_out_reach [of content] unfolding qa_cleaned_def by blast
  from written_numbered [OF this, of l] assms show ?thesis
    unfolding qa_written written_def qa_cleaned_def question_form_def by simp
qed

lemma emitted_questions:
  assumes "reach po lines out qn" and "Question m u \<in> set out"
  shows "1 \<le> m" and "\<exists>raw\<in>set lines. startswith (strip raw) ''Q:'' \<and> u = strip (drop 2 (strip raw))"
  using reach_questions [OF assms(1)] assms(2) by blast+

lemma bare_q_final: "clean_db_final_out ''Q:'' = [Question 1 []]"
  by (simp add: run_defs)

lemma bare_q_qa: "process_db_qa_out ''Q:'' = [Question 1 []]"
  by (simp add: run_defs)

lemma bare_q_improved: "process_db_qa_improved_out ''Q:'' = [Question 1 []]"
  by (simp add: run_defs)

lemma qa_passes_through: "process_db_qa ''0.Q:x'' = (''0.Q:x'', 0, 1, 0)"
  by (simp add: process_db_qa_def run_defs)

lemma final_out_question: "clean_db_final_out ''Q: a?'' = [Question 1 ''a?'']"
  by (simp add: run_defs)

lemma final_cleaned_question: "final_cleaned ''Q: a?'' = [''Q: a?'']"
  by (simp add: final_cleaned_def run_defs)

lemma final_written_question: "fst (clean_db_final ''Q: a?'') = ''1. Q: a?''"
  by (simp add: final_written written_def final_out_question show_nat.simps digit_char_def)

text \<open>
  Claim C1 says that every question line emitted is \<open><positive integer>. Q: <non-empty text>\<close>,
  also when the source line is a bare \<open>Q:\<close> marker. For the input \<open>Q:\<close> each of the three
  cleaners emits the single line \<open>1. Q: \<close>, with nothing after the marker. And for the
  input \<open>0.Q:x\<close>, \<open>process_db_qa\<close> writes the line as it is and counts it as a question:
  its number is not positive and it has no \<open>. Q: \<close>.
\<close>

theorem bare_question_marker_emitted:
  "map render (clean_db_final_out ''Q:'') = [''1. Q: '']
   \<and> map render (process_db_qa_out ''Q:'') = [''1. Q: '']
   \<and> map render (process_db_qa_improved_out ''Q:'') = [''1. Q: '']
   \<and> process_db_qa ''0.Q:x'' = (''0.Q:x'', 0, 1, 0)"
  by (simp add: bare_q_final bare_q_qa bare_q_improved qa_passes_through show_nat.simps digit_char_def)

text \<open>
  Claim C1, amended. For every input text, every line of the document written by
  \<open>clean_db_final\<close> and by \<open>process_db_qa_improved\<close> that matches the scripts' own pattern for
  a question line, \<open>\d+\.\s*Q:\<close>, is \<open><n>. Q: <text>\<close> with \<open>n\<close> a positive integer in
  decimal and \<open><text>\<close> what followed \<open>Q:\<close> on a line that starts with \<open>Q:\<close>, with the
  whitespace around it removed; that line is a line of the content left by the removal of the
  fluff, which need not be a line of the source, and \<open><text>\<close> is empty when it is a bare
  \<open>Q:\<close> marker. In the document written by \<open>process_db_qa\<close> a line that matches the pattern
  is either of that form or a line of the content left by the removal of the fluff that the
  script copied as it was, stripped, such as \<open>0.Q:x\<close>. In all three scripts, every element
  appended by the question branch is of the first form and matches the pattern.
\<close>

theorem question_lines_form:
  "(l \<in> set (split_nl (fst (clean_db_final content))) \<and> is_numbered_q l \<longrightarrow>
      (\<exists>n t. 1 \<le> n \<and> l = show_nat n @ ''. Q: '' @ t
         \<and> (\<exists>raw\<in>set (final_cleaned content). startswith (strip raw) ''Q:'' \<and> t = strip (drop 2 (strip raw)))))
   \<and> (l \<in> set (split_nl (fst (process_db_qa_improved content))) \<and> is_numbered_q l \<longrightarrow>
      (\<exists>n t. 1 \<le> n \<and> l = show_nat n @ ''. Q: '' @ t
         \<and> (\<exists>raw\<in>set (improved_cleaned content). startswith (strip raw) ''Q:'' \<and> t = strip (drop 2 (strip raw)))))
   \<and> (l \<in> set (split_nl (fst (process_db_qa content))) \<and> is_numbered_q l \<longrightarrow>
      (\<exists>n t. 1 \<le> n \<and> l = show_nat n @ ''. Q: '' @ t
         \<and> (\<exists>raw\<in>set (qa_cleaned content). startswith (strip raw) ''Q:'' \<and> t = strip (drop 2 (strip raw))))
      \<or> (\<exists>raw\<in>set (qa_cleaned content). l = strip raw))
   \<and> (Question m u \<in> set (clean_db_final_out content) \<longrightarrow>
      (\<exists>raw\<in>set (final_cleaned content). startswith (strip raw) ''Q:'' \<and> u = strip (drop 2 (strip raw))))
   \<and> (Question m u \<in> set (process_db_qa_out content) \<longrightarrow>
      (\<exists>raw\<in>set (qa_cleaned content). startswith (strip raw) ''Q:'' \<and> u = strip (drop 2 (strip raw))))
   \<and> (Question m u \<in> set (process_db_qa_improved_out content) \<longrightarrow>
      (\<exists>raw\<in>set (improved_cleaned content). startswith (strip raw) ''Q:'' \<and> u = strip (drop 2 (strip raw))))
   \<and> (Question m u \<in> set (clean_db_final_out content) \<union> set (process_db_qa_out content)
          \<union> set (process_db_qa_improved_out content) \<longrightarrow>
      1 \<le> m \<and> render (Question m u) = show_nat m @ ''. Q: '' @ u \<and> is_numbered_q (render (Question m u)))"
proof (intro conjI impI)
  assume "l \<in> set (split_nl (fst (clean_db_final content))) \<and> is_numbered_q l"
  then show "\<exists>n t. 1 \<le> n \<and> l = show_nat n @ ''. Q: '' @ t
         \<and> (\<exists>raw\<in>set (final_cleaned content). startswith (strip raw) ''Q:'' \<and> t = strip (drop 2 (strip raw)))"
    using final_numbered_lines [of l content] unfolding question_form_def by (elim conjE) blast
next
  assume "l \<in> set (split_nl (fst (process_db_qa_improved content))) \<and> is_numbered_q l"
  then show "\<exists>n t. 1 \<le> n \<and> l = show_nat n @ ''. Q: '' @ t
         \<and> (\<exists>raw\<in>set (improved_cleaned content). startswith (strip raw) ''Q:'' \<and> t = strip (drop 2 (strip raw)))"
    using improved_numbered_lines [of l content] unfolding question_form_def by (elim conjE) blast
next
  assume "l \<in> set (split_nl (fst (process_db_qa content))) \<and> is_numbered_q l"
  then show "(\<exists>n t. 1 \<le> n \<and> l = show_nat n @ ''. Q: '' @ t
         \<and> (\<exists>raw\<in>set (qa_cleaned content). startswith (strip raw) ''Q:'' \<and> t = strip (drop 2 (strip raw))))
      \<or> (\<exists>raw\<in>set (qa_cleaned content). l = strip raw)"
    using qa_numbered_lines [of l content] unfolding question_form_def by (elim conjE) blast
next
  assume "Question m u \<in> set (clean_db_final_out content)"
  then show "\<exists>raw\<in>set (final_cleaned content). startswith (strip raw) ''Q:'' \<and> u = strip (drop 2 (strip raw))"
    using final_out_reach [of content] emitted_questions(2) by blast
next
  assume "Question m u \<in> set (process_db_qa_out content)"
  then show "\<exists>raw\<in>set (qa_cleaned content). startswith (strip raw) ''Q:'' \<and> u = strip (drop 2 (strip raw))"
    using qa_out_reach [of content] emitted_questions(2) by blast
next
  assume "Question m u \<in> set (process_db_qa_improved_out content)"
  then show "\<exists>raw\<in>set (improved_cleaned content). startswith (strip raw) ''Q:'' \<and> u = strip (drop 2 (strip raw))"
    using improved_out_reach [of content] emitted_questions(2) by blast
next
  assume "Question m u \<in> set (clean_db_final_out content) \<union> set (process_db_qa_out content)
          \<union> set (process_db_qa_improved_out content)"
  then show "1 \<le> m"
    using final_out_reach [of content] qa_out_reach [of content] improved_out_reach [of content]
      emitted_questions(1) [of _ _ _ _ m u] unfolding Un_iff by blast
next
  show "render (Question m u) = show_nat m @ ''. Q: '' @ u" by simp
next
  show "is_numbered_q (render (Question m u))"
    unfolding render.simps by (rule numbered_q_render)
qed

text \<open>A question with text, in \<open>clean_db_final\<close>.\<close>

theorem question_lines_form_witness:
  "''1. Q: a?'' \<in> set (split_nl (fst (clean_db_final ''Q: a?''))) \<and> is_numbered_q ''1. Q: a?''
   \<and> final_cleaned ''Q: a?'' = [''Q: a?'']
   \<and> (\<exists>n t. 1 \<le> n \<and> ''1. Q: a?'' = show_nat n @ ''. Q: '' @ t
         \<and> (\<exists>raw\<in>set (final_cleaned ''Q: a?''). startswith (strip raw) ''Q:'' \<and> t = strip (drop 2 (strip raw))))"
proof -
  have a: "''1. Q: a?'' \<in> set (split_nl (fst (clean_db_final ''Q: a?'')))"
    by (simp add: final_written_question nl_def)
  have b: "is_numbered_q ''1. Q: a?''"
    by (simp add: is_numbered_q_def numbered_q_def plus_def lit_def is_digit_def is_space_def)
  have "''1. Q: a?'' \<in> set (split_nl (fst (clean_db_final ''Q: a?''))) \<and> is_numbered_q ''1. Q: a?'' \<longrightarrow>
      (\<exists>n t. 1 \<le> n \<and> ''1. Q: a?'' = show_nat n @ ''. Q: '' @ t
         \<and> (\<exists>raw\<in>set (final_cleaned ''Q: a?''). startswith (strip raw) ''Q:'' \<and> t = strip (drop 2 (strip raw))))"
    using question_lines_form [of "''1. Q: a?''" "''Q: a?''" 1 "''a?''"] by (rule conjunct1)
  with a b final_cleaned_question show ?thesis by blast
qed

section \<open>Question numbers\<close>

text \<open>
  The question numbers of a written document, read off its lines with the tests the scripts
  themselves apply for the summary counts: a line that starts with \<open>## \<close> is a topic heading
  and opens a new scope, the first scope being the one before any heading; a line that
  matches \<open>\d+\.\s*Q:\<close> is a question line, and its number is the run of digits it starts
  with. Every line of the document is looked at, whichever branch of the loop wrote it.
\<close>

definition question_label :: "string \<Rightarrow> string" where
  "question_label line = takeWhile is_digit line"

fun line_scopes :: "string list \<Rightarrow> string list list" where
  "line_scopes [] = [[]]"
| "line_scopes (line # ls) =
     (if startswith line ''## '' then [] # line_scopes ls
      else if is_numbered_q line then
        (case line_scopes ls of [] \<Rightarrow> [[question_label line]]
         | ns # rest \<Rightarrow> (question_label line # ns) # rest)
      else line_scopes ls)"

lemma line_scopes_nonempty [simp]: "line_scopes ls \<noteq> []"
  by (induction ls) (auto split: list.splits)

lemma line_scopes_append:
  "line_scopes (xs @ ys)
     = butlast (line_scopes xs) @ [last (line_scopes xs) @ hd (line_scopes ys)] @ tl (line_scopes ys)"
proof (induction xs)
  case Nil
  show ?case by simp
next
  case (Cons x xs)
  obtain ns rest where s: "line_scopes xs = ns # rest" by (cases "line_scopes xs") auto
  show ?case
  proof (cases "rest = []")
    case True
    with Cons s show ?thesis by simp
  next
    case False
    then obtain r rs where "rest = r # rs" by (cases rest) auto
    with Cons s show ?thesis by simp
  qed
qed

lemma numbered_starts_with_digit: "is_numbered_q l \<Longrightarrow> \<exists>d r. l = d # r \<and> is_digit d"
  by (cases l) (auto simp: is_numbered_q_def numbered_q_def plus_def split: if_splits)

lemma numbered_not_heading: "is_numbered_q l \<Longrightarrow> \<not> startswith l ''## ''"
  using numbered_starts_with_digit [of l] by (auto simp: startswith_def is_digit_def)

lemma label_of_question: "question_label (show_nat n @ ''. Q: '' @ t) = show_nat n"
proof -
  have "\<And>c. c \<in> set (show_nat n) \<Longrightarrow> is_digit c"
    using show_nat_digits [of n] by (simp add: list_all_iff)
  then have "takeWhile is_digit (show_nat n @ ''. Q: '' @ t) = show_nat n @ takeWhile is_digit (''. Q: '' @ t)"
    by (rule takeWhile_append2)
  then show ?thesis by (simp add: question_label_def is_digit_def)
qed

text \<open>The scopes of the lines of each kind of element.\<close>

lemma heading_is_heading: "startswith (''## '' @ s) ''## ''"
  by (simp add: startswith_def)

lemma not_heading_empty: "\<not> startswith [] ''## ''"
  by (simp add: startswith_def)

lemma not_heading_answer: "\<not> startswith (''A: '' @ a) ''## ''"
  by (simp add: startswith_def)

lemma scopes_of_topic:
  assumes "nl \<notin> set raw" and "tail = [] \<or> tail = [nl]"
  shows "line_scopes (split_nl (nl # ''## '' @ strip raw @ tail)) = [[], []]"
  using topic_lines [OF assms] heading_is_heading [of "strip raw"] not_heading_empty not_numbered_empty
  by (auto simp del: split_nl.simps)

lemma scopes_of_question:
  assumes "nl \<notin> set raw"
  shows "line_scopes (split_nl (show_nat n @ ''. Q: '' @ strip (drop 2 (strip raw)))) = [[show_nat n]]"
  unfolding question_lines [OF assms]
  using not_heading_question [of n "strip (drop 2 (strip raw))"] numbered_q_render [of n "strip (drop 2 (strip raw))"]
    label_of_question [of n "strip (drop 2 (strip raw))"]
  by (simp del: append.simps)

lemma scopes_of_answer: "ws_normal a \<Longrightarrow> line_scopes (split_nl (''A: '' @ a)) = [[]]"
  unfolding answer_lines using not_heading_answer [of a] not_numbered_answer [of a]
  by (simp add: answer_lines del: append.simps)

lemma scopes_of_blank: "line_scopes (split_nl []) = [[]]"
  using not_heading_empty not_numbered_empty by simp

lemma scopes_of_other:
  assumes "nl \<notin> set raw" and "\<not> is_numbered_q (strip raw)" and "\<not> startswith (strip raw) ''## ''"
  shows "line_scopes (split_nl (strip raw)) = [[]]"
  using assms by (simp add: other_lines)

text \<open>The lines written, element by element.\<close>

definition doc_lines :: "oline list \<Rightarrow> string list" where
  "doc_lines out = concat (map (\<lambda>e. split_nl (render e)) out)"

lemma doc_lines_snoc: "doc_lines (out @ [e]) = doc_lines out @ split_nl (render e)"
  by (simp add: doc_lines_def)

lemma written_lines: "out \<noteq> [] \<Longrightarrow> split_nl (written out) = doc_lines out"
  unfolding written_def doc_lines_def using split_join [of "map render out"] by (simp add: comp_def)

lemma scopes_snoc_same:
  "line_scopes (split_nl (render e)) = [[]] \<Longrightarrow> line_scopes (doc_lines (out @ [e])) = line_scopes (doc_lines out)"
  by (simp add: doc_lines_snoc line_scopes_append)

lemma scopes_snoc_topic:
  "line_scopes (split_nl (render e)) = [[], []]
     \<Longrightarrow> line_scopes (doc_lines (out @ [e])) = line_scopes (doc_lines out) @ [[]]"
  by (simp add: doc_lines_snoc line_scopes_append)

lemma scopes_snoc_question:
  "line_scopes (split_nl (render e)) = [[x]]
     \<Longrightarrow> line_scopes (doc_lines (out @ [e]))
         = butlast (line_scopes (doc_lines out)) @ [last (line_scopes (doc_lines out)) @ [x]]"
  by (simp add: doc_lines_snoc line_scopes_append)

definition contiguous :: "string list \<Rightarrow> bool" where
  "contiguous ns = (ns = map show_nat [1..<Suc (length ns)])"

lemma reach_line_scopes:
  assumes "reach po lines out qn" and "\<forall>raw\<in>set lines. nl \<notin> set raw"
    and "\<forall>l. Other l \<in> set out \<longrightarrow> \<not> is_numbered_q l \<and> \<not> startswith l ''## ''"
  shows "list_all contiguous (line_scopes (doc_lines out))
     \<and> qn = Suc (length (last (line_scopes (doc_lines out))))"
  using assms
proof (induction rule: reach.induct)
  case start
  show ?case by (simp add: doc_lines_def contiguous_def)
next
  case (topic out qn raw tail)
  have "line_scopes (split_nl (render (Topic (nl # ''## '' @ strip raw @ tail)))) = [[], []]"
    unfolding render.simps using topic.prems(1) topic.hyps(2,3) by (intro scopes_of_topic) auto
  then have "line_scopes (doc_lines (out @ [Topic (nl # ''## '' @ strip raw @ tail)]))
      = line_scopes (doc_lines out) @ [[]]"
    by (rule scopes_snoc_topic)
  with topic show ?case by (simp add: contiguous_def)
next
  case (blank out qn)
  have "line_scopes (doc_lines (out @ [Blank])) = line_scopes (doc_lines out)"
    using scopes_of_blank by (intro scopes_snoc_same) simp
  with blank show ?case by simp
next
  case (question out qn raw)
  let ?S = "line_scopes (doc_lines out)"
  have ih: "list_all contiguous ?S" "qn = Suc (length (last ?S))"
    using question by simp_all
  have "line_scopes (split_nl (render (Question qn (strip (drop 2 (strip raw)))))) = [[show_nat qn]]"
    unfolding render.simps using question.prems(1) question.hyps(2) by (intro scopes_of_question) auto
  then have e: "line_scopes (doc_lines (out @ [Question qn (strip (drop 2 (strip raw)))]))
      = butlast ?S @ [last ?S @ [show_nat qn]]"
    by (rule scopes_snoc_question)
  have "last ?S \<in> set ?S" by simp
  then have "contiguous (last ?S)" using ih(1) by (simp add: list_all_iff)
  then have "contiguous (last ?S @ [show_nat qn])"
    using ih(2) unfolding contiguous_def by simp
  moreover have "list_all contiguous (butlast ?S)"
    using ih(1) by (auto simp: list_all_iff dest: in_set_butlastD)
  ultimately show ?case unfolding e using ih(2) by simp
next
  case (answer out qn a)
  have "line_scopes (doc_lines (out @ [Answer a])) = line_scopes (doc_lines out)"
    using scopes_of_answer [OF answer.hyps(2)] by (intro scopes_snoc_same) simp
  with answer show ?case by simp
next
  case (other out qn raw)
  have "line_scopes (split_nl (render (Other (strip raw)))) = [[]]"
    unfolding render.simps using other.prems other.hyps(3) by (intro scopes_of_other) auto
  then have "line_scopes (doc_lines (out @ [Other (strip raw)])) = line_scopes (doc_lines out)"
    by (rule scopes_snoc_same)
  with other show ?case by simp
qed

lemma reach_no_other: "reach False lines out qn \<Longrightarrow> Other l \<notin> set out"
  by (induction rule: reach.induct) auto

lemma written_scopes:
  assumes "reach po (split_nl s) out qn"
    and "\<forall>l. Other l \<in> set out \<longrightarrow> \<not> is_numbered_q l \<and> \<not> startswith l ''## ''"
  shows "list_all contiguous (line_scopes (split_nl (written out)))"
proof (cases "out = []")
  case True
  then show ?thesis using not_heading_empty not_numbered_empty
    by (simp add: written_def contiguous_def)
next
  case False
  have "\<forall>raw\<in>set (split_nl s). nl \<notin> set raw" using split_nl_pieces by blast
  with assms show ?thesis using reach_line_scopes [of po "split_nl s" out qn]
    by (simp add: written_lines [OF False])
qed

text \<open>The first question line after a heading line.\<close>

lemma line_scopes_after_heading_tl:
  "startswith h ''## '' \<Longrightarrow> set (line_scopes r) \<subseteq> set (tl (line_scopes (pre @ h # r)))"
proof (induction pre)
  case Nil
  then show ?case by simp
next
  case (Cons x pre)
  obtain ns rest where s: "line_scopes (pre @ h # r) = ns # rest"
    by (cases "line_scopes (pre @ h # r)") auto
  with Cons show ?case by auto
qed

lemma line_scopes_after_heading:
  assumes "startswith h ''## ''"
  shows "set (line_scopes r) \<subseteq> set (line_scopes (pre @ h # r))"
proof -
  have "set (tl (line_scopes (pre @ h # r))) \<subseteq> set (line_scopes (pre @ h # r))"
    by (cases "line_scopes (pre @ h # r)") auto
  with line_scopes_after_heading_tl [OF assms, of r pre] show ?thesis by blast
qed

lemma line_scopes_first_question:
  assumes "\<forall>l\<in>set mid. \<not> is_numbered_q l" and "is_numbered_q q"
  shows "\<exists>ns\<in>set (line_scopes (mid @ q # post)). ns \<noteq> [] \<and> hd ns = question_label q"
  using assms(1)
proof (induction mid)
  case Nil
  obtain ns rest where "line_scopes post = ns # rest" by (cases "line_scopes post") auto
  then show ?case using assms(2) numbered_not_heading [OF assms(2)] by simp
next
  case (Cons x mid)
  then show ?case by auto
qed

lemma contiguous_hd: "contiguous ns \<Longrightarrow> ns \<noteq> [] \<Longrightarrow> hd ns = ''1''"
proof -
  assume c: "contiguous ns" and n: "ns \<noteq> []"
  have "[1..<Suc (length ns)] = 1 # [Suc 1..<Suc (length ns)]"
    using n by (intro upt_conv_Cons) simp
  then have "ns = show_nat 1 # map show_nat [Suc 1..<Suc (length ns)]"
    using c unfolding contiguous_def by (metis list.simps(9))
  then have "hd ns = show_nat 1" by (metis list.sel(1))
  then show ?thesis by (simp add: show_nat.simps digit_char_def)
qed

lemma first_after_heading:
  assumes "list_all contiguous (line_scopes ls)"
    and "ls = pre @ h # mid @ q # post" and "startswith h ''## ''"
    and "\<forall>l\<in>set mid. \<not> is_numbered_q l" and "is_numbered_q q"
  shows "question_label q = ''1''"
proof -
  obtain ns where ns: "ns \<in> set (line_scopes (mid @ q # post))" "ns \<noteq> []" "hd ns = question_label q"
    using line_scopes_first_question [OF assms(4,5)] by blast
  then have "ns \<in> set (line_scopes ls)" using line_scopes_after_heading [OF assms(3)] assms(2) by blast
  then have "contiguous ns" using assms(1) by (simp add: list_all_iff)
  with ns show ?thesis using contiguous_hd by metis
qed

lemma qa_renumbers_not:
  "process_db_qa ''Q: a\<newline>5. Q: b'' = (''1. Q: a\<newline>5. Q: b'', 0, 2, 0)"
  by (simp add: process_db_qa_def run_defs)

lemma qa_heading_passed:
  "process_db_qa ''Q: a\<newline>## Topic\<newline>Q: b'' = (''1. Q: a\<newline>## Topic\<newline>2. Q: b'', 1, 2, 0)"
  by (simp add: process_db_qa_def run_defs)

lemma qa_out_text_passed:
  "process_db_qa_out ''Q: a\<newline>some text\<newline>Q: b'' = [Question 1 ''a'', Other ''some text'', Question 2 ''b'']"
  by (simp add: run_defs)

lemma final_out_two_scopes:
  "clean_db_final_out ''Q: a\<newline>A: x\<newline>Q: b\<newline>A: y\<newline>1. Backup & Logs\<newline>Q: c''
     = [Question 1 ''a'', Answer ''x'', Blank, Question 2 ''b'', Answer ''y'', Blank,
        Topic ''\<newline>## 1. Backup & Logs'', Blank, Question 1 ''c'']"
  by (simp add: run_defs)

lemmas line_defs =
  nl_def is_space_def is_digit_def startswith_def is_numbered_q_def numbered_q_def plus_def lit_def
  question_label_def show_nat.simps digit_char_def written_def

lemma final_two_scopes_written:
  "fst (clean_db_final ''Q: a\<newline>A: x\<newline>Q: b\<newline>A: y\<newline>1. Backup & Logs\<newline>Q: c'')
     = ''1. Q: a\<newline>A: x\<newline>\<newline>2. Q: b\<newline>A: y\<newline>\<newline>\<newline>## 1. Backup & Logs\<newline>\<newline>1. Q: c''"
  by (simp add: final_written final_out_two_scopes line_defs)

lemma final_two_scopes_lines:
  "split_nl ''1. Q: a\<newline>A: x\<newline>\<newline>2. Q: b\<newline>A: y\<newline>\<newline>\<newline>## 1. Backup & Logs\<newline>\<newline>1. Q: c''
     = [''1. Q: a'', ''A: x'', [], ''2. Q: b'', ''A: y'', [], []] @ ''## 1. Backup & Logs'' # [[]] @ ''1. Q: c'' # []"
  by (simp add: nl_def)

lemma final_two_scopes:
  "line_scopes (split_nl ''1. Q: a\<newline>A: x\<newline>\<newline>2. Q: b\<newline>A: y\<newline>\<newline>\<newline>## 1. Backup & Logs\<newline>\<newline>1. Q: c'')
     = [[''1'', ''2''], [''1'']]"
  by (simp add: line_defs)

lemma qa_text_passed_scopes:
  "line_scopes (split_nl (fst (process_db_qa ''Q: a\<newline>some text\<newline>Q: b''))) = [[''1'', ''2'']]"
  by (simp add: qa_written qa_out_text_passed line_defs)

text \<open>
  Claim C2 says that the question numbers emitted within one topic scope are exactly
  \<open>1, ..., K\<close>, and that a heading resets the counter. \<open>process_db_qa\<close> writes a line that is
  neither a heading, a question, an answer nor filler as it is. For the input
  \<open>Q: a\<close>, \<open>5. Q: b\<close> it writes \<open>1. Q: a\<close>, \<open>5. Q: b\<close> and reports two questions: the
  numbers of the only scope are 1 and 5. For the input \<open>Q: a\<close>, \<open>## Topic\<close>, \<open>Q: b\<close> it writes
  \<open>1. Q: a\<close>, \<open>## Topic\<close>, \<open>2. Q: b\<close> and reports one topic: the line copied is a heading
  line of the document, the counter is not reset and the first question under it is
  numbered 2.
\<close>

theorem passed_lines_keep_their_numbers:
  "process_db_qa ''Q: a\<newline>5. Q: b'' = (''1. Q: a\<newline>5. Q: b'', 0, 2, 0)
   \<and> line_scopes (split_nl (fst (process_db_qa ''Q: a\<newline>5. Q: b''))) = [[''1'', ''5'']]
   \<and> process_db_qa ''Q: a\<newline>## Topic\<newline>Q: b'' = (''1. Q: a\<newline>## Topic\<newline>2. Q: b'', 1, 2, 0)
   \<and> line_scopes (split_nl (fst (process_db_qa ''Q: a\<newline>## Topic\<newline>Q: b''))) = [[''1''], [''2'']]"
  by (simp add: qa_renumbers_not qa_heading_passed line_defs)

text \<open>
  Claim C2, amended. For every input text, in the document written by \<open>clean_db_final\<close> and
  by \<open>process_db_qa_improved\<close>, and in the document written by \<open>process_db_qa\<close> when no line
  it copies as it is matches the pattern of a question line or starts with \<open>## \<close>, the
  numbers of the question lines within one topic scope are exactly \<open>1, 2, ..., K\<close> in decimal, in
  this order, where \<open>K\<close> is the number of question lines of that scope; and the first question
  line after a heading line is numbered 1, whatever was reached before. The lines that
  \<open>process_db_qa\<close> copies are neither renumbered nor do they reset the counter.
\<close>

theorem question_numbers_contiguous:
  assumes "doc = fst (clean_db_final content) \<or> doc = fst (process_db_qa_improved content)
     \<or> doc = fst (process_db_qa content)
        \<and> (\<forall>l. Other l \<in> set (process_db_qa_out content) \<longrightarrow> \<not> is_numbered_q l \<and> \<not> startswith l ''## '')"
  shows "(\<forall>ns\<in>set (line_scopes (split_nl doc)). ns = map show_nat [1..<Suc (length ns)])
     \<and> (\<forall>pre h mid q post.
           split_nl doc = pre @ h # mid @ q # post \<and> startswith h ''## '' \<and> is_numbered_q q
             \<and> (\<forall>l\<in>set mid. \<not> is_numbered_q l) \<longrightarrow> question_label q = ''1'')"
proof -
  have c: "list_all contiguous (line_scopes (split_nl doc))"
    using assms
  proof (elim disjE conjE)
    assume d: "doc = fst (clean_db_final content)"
    obtain qn where r: "reach False (split_nl (remove_fluff major_fluff content)) (clean_db_final_out content) qn"
      using final_out_reach [of content] unfolding final_cleaned_def by blast
    show ?thesis unfolding d final_written using r reach_no_other [OF r] by (intro written_scopes) auto
  next
    assume d: "doc = fst (process_db_qa_improved content)"
    obtain qn where r: "reach False (split_nl (remove_fluff improved_fluff_patterns content))
        (process_db_qa_improved_out content) qn"
      using improved_out_reach [of content] unfolding improved_cleaned_def by blast
    show ?thesis unfolding d improved_written using r reach_no_other [OF r] by (intro written_scopes) auto
  next
    assume d: "doc = fst (process_db_qa content)"
      and o: "\<forall>l. Other l \<in> set (process_db_qa_out content) \<longrightarrow> \<not> is_numbered_q l \<and> \<not> startswith l ''## ''"
    obtain qn where r: "reach True (split_nl (remove_fluff qa_fluff_patterns content)) (process_db_qa_out content) qn"
      using qa_out_reach [of content] unfolding qa_cleaned_def by blast
    show ?thesis unfolding d qa_written using r o by (rule written_scopes)
  qed
  then have "\<forall>ns\<in>set (line_scopes (split_nl doc)). ns = map show_nat [1..<Suc (length ns)]"
    unfolding list_all_iff contiguous_def .
  moreover have "\<forall>pre h mid q post.
           split_nl doc = pre @ h # mid @ q # post \<and> startswith h ''## '' \<and> is_numbered_q q
             \<and> (\<forall>l\<in>set mid. \<not> is_numbered_q l) \<longrightarrow> question_label q = ''1''"
    using first_after_heading [OF c] by blast
  ultimately show ?thesis by (rule conjI)
qed

text \<open>Two questions, a heading and one more question, in \<open>clean_db_final\<close>; a question, a line
  passed through and one more question, in \<open>process_db_qa\<close>.\<close>

theorem question_numbers_contiguous_witness:
  "fst (clean_db_final ''Q: a\<newline>A: x\<newline>Q: b\<newline>A: y\<newline>1. Backup & Logs\<newline>Q: c'')
     = ''1. Q: a\<newline>A: x\<newline>\<newline>2. Q: b\<newline>A: y\<newline>\<newline>\<newline>## 1. Backup & Logs\<newline>\<newline>1. Q: c''
   \<and> line_scopes (split_nl (fst (clean_db_final ''Q: a\<newline>A: x\<newline>Q: b\<newline>A: y\<newline>1. Backup & Logs\<newline>Q: c'')))
       = [[''1'', ''2''], [''1'']]
   \<and> [''1'', ''2''] = map show_nat [1..<Suc (length [''1'', ''2''])]
   \<and> question_label ''1. Q: c'' = ''1''
   \<and> process_db_qa_out ''Q: a\<newline>some text\<newline>Q: b'' = [Question 1 ''a'', Other ''some text'', Question 2 ''b'']
   \<and> \<not> is_numbered_q ''some text'' \<and> \<not> startswith ''some text'' ''## ''
   \<and> line_scopes (split_nl (fst (process_db_qa ''Q: a\<newline>some text\<newline>Q: b''))) = [[''1'', ''2'']]"
proof -
  let ?X = "''Q: a\<newline>A: x\<newline>Q: b\<newline>A: y\<newline>1. Backup & Logs\<newline>Q: c''"
  let ?Y = "''Q: a\<newline>some text\<newline>Q: b''"
  note a = question_numbers_contiguous [of "fst (clean_db_final ?X)" ?X, OF disjI1, OF refl]
  have s: "line_scopes (split_nl (fst (clean_db_final ?X))) = [[''1'', ''2''], [''1'']]"
    unfolding final_two_scopes_written by (rule final_two_scopes)
  have 1: "[''1'', ''2''] = map show_nat [1..<Suc (length [''1'', ''2''])]"
    using a [THEN conjunct1] unfolding s by simp
  have h: "startswith ''## 1. Backup & Logs'' ''## ''" "is_numbered_q ''1. Q: c''"
    "\<forall>l\<in>set [[]]. \<not> is_numbered_q l"
    by (simp_all add: line_defs)
  have 2: "question_label ''1. Q: c'' = ''1''"
    using a [THEN conjunct2, rule_format,
        of "[''1. Q: a'', ''A: x'', [], ''2. Q: b'', ''A: y'', [], []]" "''## 1. Backup & Logs''" "[[]]" "''1. Q: c''" "[]"]
      h final_two_scopes_lines unfolding final_two_scopes_written by blast
  have o: "\<not> is_numbered_q ''some text''" "\<not> startswith ''some text'' ''## ''"
    by (simp_all add: line_defs)
  then have "\<forall>l. Other l \<in> set (process_db_qa_out ?Y) \<longrightarrow> \<not> is_numbered_q l \<and> \<not> startswith l ''## ''"
    unfolding qa_out_text_passed by simp
  then have "\<forall>ns\<in>set (line_scopes (split_nl (fst (process_db_qa ?Y)))). ns = map show_nat [1..<Suc (length ns)]"
    using question_numbers_contiguous [of "fst (process_db_qa ?Y)" ?Y] by blast
  then have 3: "[''1'', ''2''] = map show_nat [1..<Suc (length [''1'', ''2''])]"
    unfolding qa_text_passed_scopes by simp
  show ?thesis using final_two_scopes_written s 1 2 3 qa_out_text_passed o qa_text_passed_scopes by blast
qed

section \<open>The reorder script\<close>

lemma emit_zip:
  "emit i ps = concat (map (\<lambda>(k, p). [show_nat k @ ''. Q: '' @ question p, ''A: '' @ answer p, []])
                          (zip [i..<i + length ps] ps))"
proof (induction ps arbitrary: i)
  case Nil
  show ?case by simp
next
  case (Cons p ps)
  have "[i..<i + Suc (length ps)] = i # [Suc i..<i + Suc (length ps)]"
    by (rule upt_conv_Cons) simp
  then have "[i..<i + length (p # ps)] = i # [Suc i..<Suc i + length ps]"
    by simp
  with Cons [of "Suc i"] show ?case by (simp del: upt_Suc)
qed

lemma extract_pair_ok:
  "(\<forall>ds. label_of qa = Some ds \<longrightarrow> length ds \<le> int_max_str_digits) \<Longrightarrow> \<exists>r. extract_pair qa = Inr r"
  by (cases "rmatch question_re qa") (auto simp: extract_pair_def label_of_def int_of_def)

lemma extract_pair_raises:
  "label_of qa = Some ds \<Longrightarrow> int_max_str_digits < length ds \<Longrightarrow> extract_pair qa = Inl ValueError"
  by (cases "rmatch question_re qa") (auto simp: extract_pair_def label_of_def int_of_def)

lemma extracted_ok:
  "\<forall>ds\<in>set (List.map_filter label_of qas). length ds \<le> int_max_str_digits \<Longrightarrow> \<exists>ps. extracted qas = Inr ps"
proof (induction qas)
  case Nil
  show ?case by simp
next
  case (Cons qa qas)
  have "\<forall>ds. label_of qa = Some ds \<longrightarrow> length ds \<le> int_max_str_digits"
    using Cons.prems by (auto simp: List.map_filter_simps)
  then obtain r where r: "extract_pair qa = Inr r" using extract_pair_ok by blast
  have "\<forall>ds\<in>set (List.map_filter label_of qas). length ds \<le> int_max_str_digits"
    using Cons.prems by (auto simp: List.map_filter_simps split: option.splits)
  then obtain ps where "extracted qas = Inr ps" using Cons.IH by blast
  with r show ?case by simp
qed

lemma extracted_raises:
  "ds \<in> set (List.map_filter label_of qas) \<Longrightarrow> int_max_str_digits < length ds \<Longrightarrow> extracted qas = Inl ValueError"
proof (induction qas)
  case Nil
  then show ?case by (simp add: List.map_filter_simps)
next
  case (Cons qa qas)
  show ?case
  proof (cases "label_of qa = Some ds")
    case True
    then have "extract_pair qa = Inl ValueError" using Cons.prems(2) by (rule extract_pair_raises)
    then show ?thesis by simp
  next
    case False
    then have "ds \<in> set (List.map_filter label_of qas)"
      using Cons.prems(1) by (auto simp: List.map_filter_simps split: option.splits)
    then have "extracted qas = Inl ValueError" using Cons.prems(2) by (rule Cons.IH)
    then show ?thesis by (cases "extract_pair qa") (auto intro: error.exhaust)
  qed
qed


text \<open>A label of 4301 digits.\<close>

definition label_tail :: string where
  "label_tail = replicate 4300 CHR ''1''"

definition long_label :: string where
  "long_label = CHR ''1'' # label_tail"

lemma label_tail_digits: "list_all is_digit label_tail"
  by (simp add: label_tail_def list_all_iff is_digit_def)

lemma long_label_length: "length long_label = 4301"
  by (simp add: long_label_def label_tail_def)

lemma not_space_digit: "is_digit d \<Longrightarrow> \<not> is_space d"
  by (auto simp: is_digit_def is_space_def)

lemma numbered_q_label:
  assumes "is_digit d" and "list_all is_digit ds"
  shows "rmatch numbered_q (d # ds @ ''. Q:'' @ rest) = Some [rest]"
proof -
  have "rmatch (lit ''.'' @ [Greedy Space] @ lit ''Q:'') (''. Q:'' @ rest) = Some [rest]"
    by (simp add: lit_def is_space_def)
  then have "rmatch (Greedy Digit # lit ''.'' @ [Greedy Space] @ lit ''Q:'') (ds @ ''. Q:'' @ rest) = Some [rest]"
    using rmatch_greedy_digits [OF assms(2), of "CHR ''.''" _ "'' Q:'' @ rest"] by (simp add: is_digit_def)
  with assms(1) show ?thesis by (simp add: numbered_q_def plus_def)
qed

lemma re_split_label:
  assumes "is_digit d" and "list_all is_digit ds"
  shows "re_split numbered_q acc (d # ds @ ''. Q:'' @ rest)
           = acc # (d # ds @ ''. Q:'') # re_split numbered_q [] rest"
proof -
  show ?thesis
    by (subst re_split.simps) (simp add: numbered_q_label [OF assms, simplified] take_Cons')
qed

lemma strip_Cons: "\<not> is_space d \<Longrightarrow> strip (d # s) = d # rev (dropWhile is_space (rev s))"
proof -
  assume d: "\<not> is_space d"
  have "dropWhile is_space (rev s @ [d]) = dropWhile is_space (rev s) @ [d]"
    using d by (induction "rev s" arbitrary: s) (simp_all add: dropWhile_append)
  with d show ?thesis by (simp add: strip_def)
qed

text \<open>The question pattern after the digits of the label.\<close>

definition label_rest :: "item list" where
  "label_rest = Mark # lit ''.'' @ [Greedy Space] @ lit ''Q:'' @ [Greedy Space] @ [Mark] @ plus (NotCh nl) @ [Mark]"

lemma label_of_digits:
  assumes "is_digit d" and "list_all is_digit ds" and "rmatch label_rest (CHR ''.'' # r) \<noteq> None"
  shows "label_of (d # ds @ CHR ''.'' # r) = Some (d # ds)"
proof -
  obtain m where m: "rmatch label_rest (CHR ''.'' # r) = Some m" using assms(3) by auto
  then obtain m' where m': "m = (CHR ''.'' # r) # m'"
    by (auto simp: label_rest_def)
  have "rmatch (Greedy Digit # label_rest) (ds @ CHR ''.'' # r) = Some m"
    using rmatch_greedy_digits [OF assms(2) _ m] by (simp add: is_digit_def)
  then have "rmatch question_re (d # ds @ CHR ''.'' # r) = Some ((d # ds @ CHR ''.'' # r) # m)"
    using assms(1) by (simp add: question_re_def label_rest_def plus_def)
  then show ?thesis by (simp add: label_of_def m' between_def)
qed

lemma qa_pairs_long:
  "qa_pairs_of (long_label @ ''. Q: a\<newline>A: x'') = [long_label @ ''. Q: a\<newline>A: x'']"
proof -
  have d: "is_digit CHR ''1''" by (simp add: is_digit_def)
  have s: "re_split numbered_q [] (long_label @ ''. Q: a\<newline>A: x'')
             = [[], long_label @ ''. Q:'', '' a\<newline>A: x'']"
    using re_split_label [OF d label_tail_digits, of "[]" "'' a\<newline>A: x''"]
    by (simp add: long_label_def run_defs)
  have m: "rmatch numbered_q (long_label @ ''. Q:'') \<noteq> None"
    using numbered_q_label [OF d label_tail_digits, of "[]"] by (simp add: long_label_def)
  have g: "foldl gather_step ([], []) [[], long_label @ ''. Q:'', '' a\<newline>A: x'']
             = ([], long_label @ ''. Q: a\<newline>A: x'')"
    using m by (simp add: gather_step_def Let_def run_defs)
  have "strip (long_label @ ''. Q: a\<newline>A: x'') = long_label @ ''. Q: a\<newline>A: x''"
    using strip_Cons [OF not_space_digit [OF d], of "label_tail @ ''. Q: a\<newline>A: x''"]
    by (simp add: long_label_def is_space_def)
  then show ?thesis unfolding qa_pairs_of_def s g by (simp add: Let_def long_label_def)
qed

lemma labels_long: "labels (long_label @ ''. Q: a\<newline>A: x'') = [long_label]"
proof -
  have d: "is_digit CHR ''1''" by (simp add: is_digit_def)
  have "rmatch label_rest (''. Q: a\<newline>A: x'') \<noteq> None"
    by (simp add: label_rest_def run_defs)
  then have "label_of (long_label @ ''. Q: a\<newline>A: x'') = Some long_label"
    using label_of_digits [OF d label_tail_digits, of "'' Q: a\<newline>A: x''"] by (simp add: long_label_def)
  then show ?thesis by (simp add: labels_def qa_pairs_long List.map_filter_simps)
qed




lemma extracted_5_2_2_9:
  "extracted (qa_pairs_of ''5. Q: a\<newline>A: x\<newline>2. Q: b\<newline>A: y\<newline>2. Q: c\<newline>A: z\<newline>9. Q: d\<newline>A: w\<newline>'')
     = Inr [\<lparr>original_num = 5, question = ''a'', answer = ''x''\<rparr>,
            \<lparr>original_num = 2, question = ''b'', answer = ''y''\<rparr>,
            \<lparr>original_num = 2, question = ''c'', answer = ''z''\<rparr>,
            \<lparr>original_num = 9, question = ''d'', answer = ''w''\<rparr>]"
  by (simp add: run_defs)

lemma labels_5_2_2_9: "labels ''5. Q: a\<newline>A: x\<newline>2. Q: b\<newline>A: y\<newline>2. Q: c\<newline>A: z\<newline>9. Q: d\<newline>A: w\<newline>'' = [''5'', ''2'', ''2'', ''9'']"
  by (simp add: run_defs)



lemma reorder_raises:
  assumes "ds \<in> set (labels content)" and "int_max_str_digits < length ds"
  shows "reorder_questions content = Inl ValueError"
proof -
  have "extracted (qa_pairs_of content) = Inl ValueError"
    using assms unfolding labels_def by (rule extracted_raises)
  then show ?thesis by (simp add: reorder_questions_def reorder_pairs_def structured_pairs_def)
qed

text \<open>
  Claim C4 says that every input document is sorted and renumbered without any error. A
  document whose question label has 4301 digits makes \<open>int\<close> raise \<open>ValueError\<close>: the script
  stops there and writes nothing.
\<close>

theorem long_label_raises:
  "length long_label = 4301
   \<and> labels (long_label @ ''. Q: a\<newline>A: x'') = [long_label]
   \<and> reorder_questions (long_label @ ''. Q: a\<newline>A: x'') = Inl ValueError"
  using reorder_raises [of long_label "long_label @ ''. Q: a\<newline>A: x''"]
  by (simp add: long_label_length labels_long int_max_str_digits_def)

text \<open>
  Claim C4, amended. For every input document in which no question label has more than
  4300 digits, the pairs written by the reorder script are the pairs read from the
  document whose extracted answer is not empty, in ascending order of their original
  number, and they are written with the numbers \<open>1, 2, ..., N\<close> whatever the original
  numbers were; a pair with an empty answer is left out without error or message, and the
  only message is the count of the pairs written. When a label has more than 4300
  digits, \<open>int\<close> raises \<open>ValueError\<close> and nothing is written.
\<close>

theorem reorder_sorts_and_renumbers:
  "((\<forall>ds\<in>set (labels content). length ds \<le> int_max_str_digits) \<longrightarrow>
      (\<exists>ps out. extracted (qa_pairs_of content) = Inr ps
         \<and> reorder_pairs content = Inr out
         \<and> sorted (map original_num out)
         \<and> mset out = mset (filter (\<lambda>p. answer p \<noteq> []) ps)
         \<and> reorder_output_lines content =
             Inr (concat (map (\<lambda>(k, p). [show_nat k @ ''. Q: '' @ question p, ''A: '' @ answer p, []])
                         (zip [1..<Suc (length out)] out)))
         \<and> reorder_questions content =
             Inr (join_nl (concat (map (\<lambda>(k, p). [show_nat k @ ''. Q: '' @ question p, ''A: '' @ answer p, []])
                                  (zip [1..<Suc (length out)] out))), length out)))
   \<and> ((\<exists>ds\<in>set (labels content). int_max_str_digits < length ds) \<longrightarrow>
        reorder_questions content = Inl ValueError)"
proof (intro conjI impI)
  assume "\<forall>ds\<in>set (labels content). length ds \<le> int_max_str_digits"
  then obtain ps where ps: "extracted (qa_pairs_of content) = Inr ps"
    unfolding labels_def using extracted_ok by blast
  let ?out = "sort_pairs (filter (\<lambda>p. answer p \<noteq> []) ps)"
  have "reorder_pairs content = Inr ?out"
    using ps by (simp add: reorder_pairs_def structured_pairs_def)
  moreover have "sorted (map original_num ?out)" "mset ?out = mset (filter (\<lambda>p. answer p \<noteq> []) ps)"
    by (simp_all add: sort_pairs_def)
  ultimately show "\<exists>ps out. extracted (qa_pairs_of content) = Inr ps
         \<and> reorder_pairs content = Inr out
         \<and> sorted (map original_num out)
         \<and> mset out = mset (filter (\<lambda>p. answer p \<noteq> []) ps)
         \<and> reorder_output_lines content =
             Inr (concat (map (\<lambda>(k, p). [show_nat k @ ''. Q: '' @ question p, ''A: '' @ answer p, []])
                         (zip [1..<Suc (length out)] out)))
         \<and> reorder_questions content =
             Inr (join_nl (concat (map (\<lambda>(k, p). [show_nat k @ ''. Q: '' @ question p, ''A: '' @ answer p, []])
                                  (zip [1..<Suc (length out)] out))), length out)"
    using ps emit_zip [of 1 ?out]
    by (intro exI [of _ ps] exI [of _ ?out]) (simp add: reorder_output_lines_def reorder_questions_def)
next
  assume "\<exists>ds\<in>set (labels content). int_max_str_digits < length ds"
  then show "reorder_questions content = Inl ValueError" using reorder_raises by blast
qed

text \<open>The document of four pairs numbered 5, 2, 2, 9.\<close>

theorem reorder_sorts_and_renumbers_witness:
  "labels ''5. Q: a\<newline>A: x\<newline>2. Q: b\<newline>A: y\<newline>2. Q: c\<newline>A: z\<newline>9. Q: d\<newline>A: w\<newline>'' = [''5'', ''2'', ''2'', ''9'']
   \<and> reorder_questions ''5. Q: a\<newline>A: x\<newline>2. Q: b\<newline>A: y\<newline>2. Q: c\<newline>A: z\<newline>9. Q: d\<newline>A: w\<newline>''
      = Inr (''1. Q: b\<newline>A: y\<newline>\<newline>2. Q: c\<newline>A: z\<newline>\<newline>3. Q: a\<newline>A: x\<newline>\<newline>4. Q: d\<newline>A: w\<newline>'', 4)"
  using reorder_sorts_and_renumbers [of "''5. Q: a\<newline>A: x\<newline>2. Q: b\<newline>A: y\<newline>2. Q: c\<newline>A: z\<newline>9. Q: d\<newline>A: w\<newline>''"]
  by (simp add: labels_5_2_2_9 extracted_5_2_2_9 reorder_questions_def reorder_pairs_def structured_pairs_def
        sort_pairs_def show_nat.simps digit_char_def nl_def)




text \<open>
  Claim C3 says that a document whose pairs carry the original numbers 5, 2, 2, 9, each
  with a non-empty answer, gives exactly 3 output pairs. For such a document the script
  writes 4 pairs, numbered 1 to 4, and reports 4.
\<close>

theorem reorder_5_2_2_9_gives_four:
  "map_sum id (map original_num) (extracted (qa_pairs_of ''5. Q: a\<newline>A: x\<newline>2. Q: b\<newline>A: y\<newline>2. Q: c\<newline>A: z\<newline>9. Q: d\<newline>A: w\<newline>'')) = Inr [5, 2, 2, 9]
   \<and> reorder_output_lines ''5. Q: a\<newline>A: x\<newline>2. Q: b\<newline>A: y\<newline>2. Q: c\<newline>A: z\<newline>9. Q: d\<newline>A: w\<newline>''
     = Inr [''1. Q: b'', ''A: y'', [], ''2. Q: c'', ''A: z'', [], ''3. Q: a'', ''A: x'', [], ''4. Q: d'', ''A: w'', []]
   \<and> map_sum id snd (reorder_questions ''5. Q: a\<newline>A: x\<newline>2. Q: b\<newline>A: y\<newline>2. Q: c\<newline>A: z\<newline>9. Q: d\<newline>A: w\<newline>'') = Inr 4"
  by (simp add: extracted_5_2_2_9 reorder_questions_def reorder_output_lines_def reorder_pairs_def
        sort_pairs_def structured_pairs_def show_nat.simps digit_char_def)

text \<open>
  Claim C3, amended. Given an input document whose pairs carry the original numbers
  5, 2, 2, 9 and each have a non-empty extracted answer, the reorder script writes exactly
  4 pairs, numbered 1, 2, 3, 4, in ascending order of original number: the two pairs
  numbered 2 in their input order, then the pair numbered 5, then the pair numbered 9.
\<close>

theorem reorder_5_2_2_9:
  assumes "extracted (qa_pairs_of content) = Inr [p1, p2, p3, p4]"
    and "map original_num [p1, p2, p3, p4] = [5, 2, 2, 9]"
    and "\<forall>p\<in>set [p1, p2, p3, p4]. answer p \<noteq> []"
  shows "reorder_output_lines content
           = Inr [''1. Q: '' @ question p2, ''A: '' @ answer p2, [],
                  ''2. Q: '' @ question p3, ''A: '' @ answer p3, [],
                  ''3. Q: '' @ question p1, ''A: '' @ answer p1, [],
                  ''4. Q: '' @ question p4, ''A: '' @ answer p4, []]
         \<and> map_sum id snd (reorder_questions content) = Inr 4"
  using assms
  by (simp add: reorder_questions_def reorder_output_lines_def reorder_pairs_def
        sort_pairs_def structured_pairs_def show_nat.simps digit_char_def)

text \<open>The document of four pairs above.\<close>

theorem reorder_5_2_2_9_witness:
  "extracted (qa_pairs_of ''5. Q: a\<newline>A: x\<newline>2. Q: b\<newline>A: y\<newline>2. Q: c\<newline>A: z\<newline>9. Q: d\<newline>A: w\<newline>'')
     = Inr [\<lparr>original_num = 5, question = ''a'', answer = ''x''\<rparr>,
            \<lparr>original_num = 2, question = ''b'', answer = ''y''\<rparr>,
            \<lparr>original_num = 2, question = ''c'', answer = ''z''\<rparr>,
            \<lparr>original_num = 9, question = ''d'', answer = ''w''\<rparr>]
   \<and> reorder_output_lines ''5. Q: a\<newline>A: x\<newline>2. Q: b\<newline>A: y\<newline>2. Q: c\<newline>A: z\<newline>9. Q: d\<newline>A: w\<newline>''
     = Inr [''1. Q: b'', ''A: y'', [], ''2. Q: c'', ''A: z'', [], ''3. Q: a'', ''A: x'', [], ''4. Q: d'', ''A: w'', []]"
  using reorder_5_2_2_9 [OF extracted_5_2_2_9]
  by (simp add: extracted_5_2_2_9)

section \<open>The search for the answer\<close>

text \<open>What the search appends for the answer line it finds, and the two tests it makes on a
  line.\<close>

definition with_answer :: "oline list \<Rightarrow> string \<Rightarrow> oline list" where
  "with_answer out line =
     (if collapse_ws (strip (drop 2 (strip line))) \<noteq> []
      then out @ [Answer (collapse_ws (strip (drop 2 (strip line)))), Blank] else out)"

definition blank :: "string \<Rightarrow> bool" where
  "blank line = (strip line = [])"

definition marker :: "string \<Rightarrow> string \<Rightarrow> bool" where
  "marker m line = startswith (strip line) m"

lemma improved_look_blank:
  "i < length lines \<Longrightarrow> blank (lines ! i) \<Longrightarrow> improved_look lines i out = improved_look lines (i + 1) out"
  by (subst improved_look.simps) (simp add: blank_def startswith_def)

lemma improved_look_skips:
  "i \<le> j \<Longrightarrow> j \<le> length lines \<Longrightarrow> \<forall>k. i \<le> k \<and> k < j \<longrightarrow> blank (lines ! k)
   \<Longrightarrow> improved_look lines i out = improved_look lines j out"
proof (induction "j - i" arbitrary: i)
  case 0
  then show ?case by simp
next
  case (Suc d)
  then have "improved_look lines i out = improved_look lines (i + 1) out"
    by (intro improved_look_blank) auto
  also have "\<dots> = improved_look lines j out"
    using Suc.prems Suc.hyps(2) by (intro Suc.hyps(1)) auto
  finally show ?case .
qed

lemma final_look_other:
  "i < length lines \<Longrightarrow> \<not> blank (lines ! i) \<Longrightarrow> \<not> marker ''A:'' (lines ! i) \<Longrightarrow> \<not> marker ''Q:'' (lines ! i)
   \<Longrightarrow> final_look lines i out = final_look lines (i + 1) out"
  by (subst final_look.simps) (simp add: blank_def marker_def)

lemma final_look_skips:
  "i \<le> j \<Longrightarrow> j \<le> length lines
   \<Longrightarrow> \<forall>k. i \<le> k \<and> k < j \<longrightarrow> \<not> blank (lines ! k) \<and> \<not> marker ''A:'' (lines ! k) \<and> \<not> marker ''Q:'' (lines ! k)
   \<Longrightarrow> final_look lines i out = final_look lines j out"
proof (induction "j - i" arbitrary: i)
  case 0
  then show ?case by simp
next
  case (Suc d)
  then have "final_look lines i out = final_look lines (i + 1) out"
    by (intro final_look_other) auto
  also have "\<dots> = final_look lines j out"
    using Suc.prems Suc.hyps(2) by (intro Suc.hyps(1)) auto
  finally show ?case .
qed

lemma final_out_blank_before_answer: "clean_db_final_out ''Q: x\<newline>\<newline>A: y'' = [Question 1 ''x'']"
  by (simp add: run_defs)

text \<open>
  Claim C9 says that the line-scanning cleaners search forward past intervening blank
  lines for the answer. In \<open>clean_db_final\<close> a blank line ends the search: for a question, a
  blank line and then an answer line, only the question is emitted.
\<close>

theorem blank_line_ends_answer_search:
  "map render (clean_db_final_out ''Q: x\<newline>\<newline>A: y'') = [''1. Q: x'']"
  by (simp add: final_out_blank_before_answer show_nat.simps digit_char_def)

text \<open>
  Claim C9, amended. After emitting the question of line \<open>i\<close>, \<open>process_db_qa_improved\<close>
  searches forward past blank lines only: when the first line \<open>j\<close> that is not blank starts
  with \<open>A:\<close>, it is taken as the answer (appended when not empty after cleaning) and the
  search stops there; when it does not, nothing is appended and the search leaves the
  index at \<open>j - 1\<close>, so that line \<open>j\<close> is processed next; at the end of the input nothing is
  appended. \<open>clean_db_final\<close> searches forward past the lines that are not blank and start
  with neither \<open>A:\<close> nor \<open>Q:\<close>: when the first other line \<open>j\<close> starts with \<open>A:\<close>, it is taken as
  the answer and scanning goes on at \<open>j + 1\<close>; when it is blank or starts with \<open>Q:\<close>, the
  question is kept without an answer and scanning goes on at line \<open>j\<close>; at the end of the
  input the question is kept without an answer.
\<close>

theorem answer_search:
  "(i < j \<and> j < length lines \<and> (\<forall>k. i < k \<and> k < j \<longrightarrow> blank (lines ! k)) \<and> marker ''A:'' (lines ! j)
      \<longrightarrow> improved_look lines (i + 1) out = (j, with_answer out (lines ! j)))
   \<and> (i < j \<and> j < length lines \<and> (\<forall>k. i < k \<and> k < j \<longrightarrow> blank (lines ! k))
        \<and> \<not> blank (lines ! j) \<and> \<not> marker ''A:'' (lines ! j)
      \<longrightarrow> improved_look lines (i + 1) out = (j - 1, out))
   \<and> (i < length lines \<and> (\<forall>k. i < k \<and> k < length lines \<longrightarrow> blank (lines ! k))
      \<longrightarrow> improved_look lines (i + 1) out = (length lines, out))
   \<and> (i < j \<and> j < length lines
        \<and> (\<forall>k. i < k \<and> k < j \<longrightarrow> \<not> blank (lines ! k) \<and> \<not> marker ''A:'' (lines ! k) \<and> \<not> marker ''Q:'' (lines ! k))
        \<and> marker ''A:'' (lines ! j)
      \<longrightarrow> final_after_q lines i out = (j + 1, with_answer out (lines ! j)))
   \<and> (i < j \<and> j < length lines
        \<and> (\<forall>k. i < k \<and> k < j \<longrightarrow> \<not> blank (lines ! k) \<and> \<not> marker ''A:'' (lines ! k) \<and> \<not> marker ''Q:'' (lines ! k))
        \<and> \<not> marker ''A:'' (lines ! j) \<and> (blank (lines ! j) \<or> marker ''Q:'' (lines ! j))
      \<longrightarrow> final_after_q lines i out = (j, out))
   \<and> (i < length lines
        \<and> (\<forall>k. i < k \<and> k < length lines \<longrightarrow> \<not> blank (lines ! k) \<and> \<not> marker ''A:'' (lines ! k) \<and> \<not> marker ''Q:'' (lines ! k))
      \<longrightarrow> final_after_q lines i out = (length lines, out))"
proof (intro conjI impI; elim conjE)
  assume "i < j" "j < length lines" "\<forall>k. i < k \<and> k < j \<longrightarrow> blank (lines ! k)" "marker ''A:'' (lines ! j)"
  then have "improved_look lines (i + 1) out = improved_look lines j out"
    by (intro improved_look_skips) auto
  also have "\<dots> = (j, with_answer out (lines ! j))"
    using \<open>j < length lines\<close> \<open>marker ''A:'' (lines ! j)\<close>
    by (subst improved_look.simps) (simp add: marker_def with_answer_def Let_def)
  finally show "improved_look lines (i + 1) out = (j, with_answer out (lines ! j))" .
next
  assume "i < j" "j < length lines" "\<forall>k. i < k \<and> k < j \<longrightarrow> blank (lines ! k)"
    "\<not> blank (lines ! j)" "\<not> marker ''A:'' (lines ! j)"
  then have "improved_look lines (i + 1) out = improved_look lines j out"
    by (intro improved_look_skips) auto
  also have "\<dots> = (j - 1, out)"
    using \<open>j < length lines\<close> \<open>\<not> blank (lines ! j)\<close> \<open>\<not> marker ''A:'' (lines ! j)\<close>
    by (subst improved_look.simps) (simp add: marker_def blank_def Let_def)
  finally show "improved_look lines (i + 1) out = (j - 1, out)" .
next
  assume "i < length lines" "\<forall>k. i < k \<and> k < length lines \<longrightarrow> blank (lines ! k)"
  then have "improved_look lines (i + 1) out = improved_look lines (length lines) out"
    by (intro improved_look_skips) auto
  also have "\<dots> = (length lines, out)"
    by (subst improved_look.simps) simp
  finally show "improved_look lines (i + 1) out = (length lines, out)" .
next
  assume "i < j" "j < length lines"
    "\<forall>k. i < k \<and> k < j \<longrightarrow> \<not> blank (lines ! k) \<and> \<not> marker ''A:'' (lines ! k) \<and> \<not> marker ''Q:'' (lines ! k)"
    "marker ''A:'' (lines ! j)"
  then have "final_look lines (i + 1) out = final_look lines j out"
    by (intro final_look_skips) auto
  also have "\<dots> = (j, True, with_answer out (lines ! j))"
    using \<open>j < length lines\<close> \<open>marker ''A:'' (lines ! j)\<close>
    by (subst final_look.simps) (simp add: marker_def with_answer_def Let_def)
  finally show "final_after_q lines i out = (j + 1, with_answer out (lines ! j))"
    by (simp add: final_after_q_def)
next
  assume "i < j" "j < length lines"
    "\<forall>k. i < k \<and> k < j \<longrightarrow> \<not> blank (lines ! k) \<and> \<not> marker ''A:'' (lines ! k) \<and> \<not> marker ''Q:'' (lines ! k)"
    "\<not> marker ''A:'' (lines ! j)" "blank (lines ! j) \<or> marker ''Q:'' (lines ! j)"
  then have "final_look lines (i + 1) out = final_look lines j out"
    by (intro final_look_skips) auto
  also have "\<dots> = (j, False, out)"
    using \<open>j < length lines\<close> \<open>\<not> marker ''A:'' (lines ! j)\<close> \<open>blank (lines ! j) \<or> marker ''Q:'' (lines ! j)\<close>
    by (subst final_look.simps) (auto simp add: marker_def blank_def Let_def)
  finally show "final_after_q lines i out = (j, out)"
    using \<open>i < j\<close> by (simp add: final_after_q_def)
next
  assume "i < length lines"
    "\<forall>k. i < k \<and> k < length lines \<longrightarrow> \<not> blank (lines ! k) \<and> \<not> marker ''A:'' (lines ! k) \<and> \<not> marker ''Q:'' (lines ! k)"
  then have "final_look lines (i + 1) out = final_look lines (length lines) out"
    by (intro final_look_skips) auto
  also have "\<dots> = (length lines, False, out)"
    by (subst final_look.simps) simp
  finally show "final_after_q lines i out = (length lines, out)"
    using \<open>i < length lines\<close> by (simp add: final_after_q_def)
qed

text \<open>A question, a blank line and an answer line: the search of \<open>process_db_qa_improved\<close>
  reaches the answer, that of \<open>clean_db_final\<close> stops at the blank line.\<close>

theorem answer_search_witness:
  "(0::nat) < 2 \<and> 2 < length [''Q: x'', '''', ''A: y''] \<and> blank ([''Q: x'', '''', ''A: y''] ! 1)
   \<and> marker ''A:'' ([''Q: x'', '''', ''A: y''] ! 2)
   \<and> improved_look [''Q: x'', '''', ''A: y''] (0 + 1) [Question 1 ''x'']
        = (2, [Question 1 ''x'', Answer ''y'', Blank])
   \<and> \<not> marker ''A:'' ([''Q: x'', '''', ''A: y''] ! 1)
   \<and> final_after_q [''Q: x'', '''', ''A: y''] 0 [Question 1 ''x''] = (1, [Question 1 ''x''])"
proof -
  let ?lines = "[''Q: x'', '''', ''A: y'']"
  have b: "\<forall>k. (0::nat) < k \<and> k < 2 \<longrightarrow> blank (?lines ! k)"
    by (auto simp: blank_def strip_def less_Suc_eq numeral_2_eq_2)
  have m: "marker ''A:'' (?lines ! 2)" "\<not> marker ''A:'' (?lines ! 1)" "blank (?lines ! 1)"
    by (simp_all add: marker_def blank_def run_defs)
  have w: "with_answer [Question 1 ''x''] (?lines ! 2) = [Question 1 ''x'', Answer ''y'', Blank]"
    by (simp add: with_answer_def run_defs)
  have 1: "improved_look ?lines (0 + 1) [Question 1 ''x''] = (2, with_answer [Question 1 ''x''] (?lines ! 2))"
    using answer_search [of 0 2 ?lines "[Question 1 ''x'']"] b m by simp
  have 2: "final_after_q ?lines 0 [Question 1 ''x''] = (1, [Question 1 ''x''])"
    using answer_search [of 0 1 ?lines "[Question 1 ''x'']"] m by simp
  show ?thesis using 1 2 m w by simp
qed

section \<open>The fluff remover on text without filler\<close>

text \<open>No pattern of the list has a match anywhere in the text (\<open>re.search\<close> finds none).\<close>

definition fluff_free :: "item list list \<Rightarrow> string \<Rightarrow> bool" where
  "fluff_free patterns s = list_all (\<lambda>p. re_search p s = None) patterns"

text \<open>Every run of the character \<open>c\<close> replaced by a single \<open>c\<close>; and a text without two
  adjacent \<open>c\<close>.\<close>

fun squeeze :: "char \<Rightarrow> string \<Rightarrow> string" where
  "squeeze c [] = []"
| "squeeze c [x] = [x]"
| "squeeze c (x # y # r) = (if x = c \<and> y = c then squeeze c (y # r) else x # squeeze c (y # r))"

fun no_double :: "char \<Rightarrow> string \<Rightarrow> bool" where
  "no_double c [] = True"
| "no_double c [x] = True"
| "no_double c (x # y # r) = (\<not> (x = c \<and> y = c) \<and> no_double c (y # r))"

lemma re_sub_no_match: "re_search p s = None \<Longrightarrow> re_sub p repl s = s"
proof (induction s)
  case Nil
  then show ?case by (subst re_sub.simps) (simp split: option.splits)
next
  case (Cons x xs)
  then have "rmatch p (x # xs) = None" "re_search p xs = None"
    by (auto split: option.splits)
  with Cons.IH show ?case by (subst re_sub.simps) simp
qed

lemma remove_fluff_no_match: "fluff_free patterns s \<Longrightarrow> remove_fluff patterns s = s"
  unfolding fluff_free_def remove_fluff_def
  by (induction patterns) (simp_all add: re_sub_no_match)

lemma squeeze_head: "squeeze c (x # xs) \<noteq> [] \<and> hd (squeeze c (x # xs)) = x"
  by (induction xs arbitrary: x) auto

lemma squeeze_run: "squeeze c (c # xs) = c # squeeze c (dropWhile (\<lambda>y. y = c) xs)"
proof (induction xs)
  case Nil
  show ?case by simp
next
  case (Cons y r)
  show ?case
  proof (cases "y = c")
    case True
    with Cons show ?thesis by simp
  next
    case False
    then show ?thesis by simp
  qed
qed

lemma squeeze_other: "x \<noteq> c \<Longrightarrow> squeeze c (x # xs) = x # squeeze c xs"
  by (cases xs) auto

lemma rmatch_greedy_ch: "rmatch [Greedy (Ch c)] s = Some [dropWhile (\<lambda>y. y = c) s]"
  by (induction s) auto

lemma re_sub_periods: "re_sub periods ''.'' s = squeeze CHR ''.'' s"
proof (induction s rule: length_induct)
  case (1 s)
  show ?case
  proof (cases s)
    case Nil
    then show ?thesis by (subst re_sub.simps) (simp add: periods_def plus_def)
  next
    case (Cons x xs)
    show ?thesis
    proof (cases "x = CHR ''.''")
      case True
      let ?d = "dropWhile (\<lambda>y. y = CHR ''.'') xs"
      have "length ?d < length s" using Cons by (simp add: less_Suc_eq_le length_dropWhile_le)
      with 1 have "re_sub periods ''.'' ?d = squeeze CHR ''.'' ?d" by blast
      moreover have "re_sub periods ''.'' s = ''.'' @ re_sub periods ''.'' ?d"
        using Cons True
        by (subst re_sub.simps) (simp add: periods_def plus_def rmatch_greedy_ch less_Suc_eq_le length_dropWhile_le)
      ultimately show ?thesis using Cons True by (simp add: squeeze_run)
    next
      case False
      have "re_sub periods ''.'' xs = squeeze CHR ''.'' xs" using 1 Cons by simp
      moreover have "re_sub periods ''.'' s = x # re_sub periods ''.'' xs"
        using Cons False by (subst re_sub.simps) (simp add: periods_def plus_def)
      ultimately show ?thesis using Cons False by (simp add: squeeze_other)
    qed
  qed
qed

lemma re_sub_double_spaces: "re_sub double_spaces '' '' s = squeeze CHR '' '' s"
proof (induction s rule: length_induct)
  case (1 s)
  show ?case
  proof (cases s)
    case Nil
    then show ?thesis by (subst re_sub.simps) (simp add: double_spaces_def plus_def lit_def)
  next
    case (Cons x xs)
    have ih: "re_sub double_spaces '' '' xs = squeeze CHR '' '' xs" using 1 Cons by simp
    show ?thesis
    proof (cases "x = CHR '' '' \<and> xs \<noteq> [] \<and> hd xs = CHR '' ''")
      case True
      then obtain ys where xs: "xs = CHR '' '' # ys" by (cases xs) auto
      let ?d = "dropWhile (\<lambda>y. y = CHR '' '') ys"
      have "length ?d < length s" using Cons xs by (simp add: less_Suc_eq_le le_SucI length_dropWhile_le)
      with 1 have "re_sub double_spaces '' '' ?d = squeeze CHR '' '' ?d" by blast
      moreover have "re_sub double_spaces '' '' s = '' '' @ re_sub double_spaces '' '' ?d"
        using Cons True xs
        by (subst re_sub.simps)
           (simp add: double_spaces_def plus_def lit_def rmatch_greedy_ch less_Suc_eq_le le_SucI length_dropWhile_le)
      ultimately show ?thesis using Cons True xs by (simp add: squeeze_run)
    next
      case False
      have "rmatch double_spaces s = None"
        using Cons False by (cases xs) (auto simp: double_spaces_def plus_def lit_def)
      then have "re_sub double_spaces '' '' s = x # re_sub double_spaces '' '' xs"
        using Cons by (subst re_sub.simps) simp
      moreover have "squeeze CHR '' '' s = x # squeeze CHR '' '' xs"
        using Cons False by (cases xs) auto
      ultimately show ?thesis using ih by simp
    qed
  qed
qed

lemma simple_clean_squeeze:
  "simple_clean s = squeeze CHR ''.'' (squeeze CHR '' '' (remove_fluff simple_fluff_patterns s))"
  by (simp add: simple_clean_def re_sub_periods re_sub_double_spaces)

lemma no_double_squeeze: "no_double c (squeeze c s)"
proof (induction c s rule: squeeze.induct)
  case (3 c x y r)
  obtain z where "squeeze c (y # r) = y # z"
    using squeeze_head [of c y r] by (cases "squeeze c (y # r)") auto
  with 3 show ?case by auto
qed auto

lemma squeeze_no_double: "no_double c s \<Longrightarrow> squeeze c s = s"
  by (induction c s rule: squeeze.induct) auto

lemma no_double_squeeze_other: "no_double a s \<Longrightarrow> no_double a (squeeze b s)"
proof (induction b s rule: squeeze.induct)
  case (3 b x y r)
  obtain z where "squeeze b (y # r) = y # z"
    using squeeze_head [of b y r] by (cases "squeeze b (y # r)") auto
  with 3 show ?case by auto
qed auto

lemma simple_free_periods: "fluff_free simple_fluff_patterns ''a..b''"
  by (simp add: fluff_free_def run_defs)

lemma simple_free_period: "fluff_free simple_fluff_patterns ''a.b''"
  by (simp add: fluff_free_def run_defs)

lemma major_free_periods: "fluff_free major_fluff ''a..b''"
  by (simp add: fluff_free_def run_defs)

text \<open>
  Claim C5 says that the fluff-removal stage returns a text in which no filler pattern has
  a match unchanged, modulo whitespace collapsing. In \<open>a..b\<close> no pattern of \<open>simple_clean\<close>
  has a match and there is no whitespace, and the stage of \<open>simple_clean\<close> returns \<open>a.b\<close>.
\<close>

theorem simple_clean_collapses_periods:
  "fluff_free simple_fluff_patterns ''a..b'' \<and> simple_clean ''a..b'' = ''a.b''"
  by (simp add: simple_free_periods simple_clean_squeeze remove_fluff_no_match)

text \<open>
  Claim C5, amended. For every text in which no filler pattern has a match, the loop over
  the filler patterns returns the text unchanged, for any list of patterns, and raises no
  error; the stage of \<open>simple_clean\<close> then returns the text with every run of spaces
  replaced by one space and every run of periods replaced by one period; hence running
  \<open>simple_clean\<close> again on its own output, when no filler pattern has a match in it, is a
  no-op.
\<close>

theorem fluff_free_text_kept:
  "(fluff_free patterns s \<longrightarrow> remove_fluff patterns s = s)
   \<and> (fluff_free simple_fluff_patterns s \<longrightarrow> simple_clean s = squeeze CHR ''.'' (squeeze CHR '' '' s))
   \<and> (fluff_free simple_fluff_patterns (simple_clean s) \<longrightarrow> simple_clean (simple_clean s) = simple_clean s)"
proof (intro conjI impI)
  assume "fluff_free patterns s"
  then show "remove_fluff patterns s = s" by (rule remove_fluff_no_match)
next
  assume "fluff_free simple_fluff_patterns s"
  then show "simple_clean s = squeeze CHR ''.'' (squeeze CHR '' '' s)"
    by (simp add: simple_clean_squeeze remove_fluff_no_match)
next
  let ?t = "simple_clean s"
  assume "fluff_free simple_fluff_patterns ?t"
  then have "simple_clean ?t = squeeze CHR ''.'' (squeeze CHR '' '' ?t)"
    by (simp add: simple_clean_squeeze remove_fluff_no_match)
  moreover have "no_double CHR '' '' ?t" "no_double CHR ''.'' ?t"
    unfolding simple_clean_squeeze by (simp_all add: no_double_squeeze no_double_squeeze_other)
  ultimately show "simple_clean ?t = ?t" by (simp add: squeeze_no_double)
qed

text \<open>The text \<open>a..b\<close> and the patterns of \<open>clean_db_final\<close> and of \<open>simple_clean\<close>.\<close>

theorem fluff_free_text_kept_witness:
  "fluff_free major_fluff ''a..b'' \<and> remove_fluff major_fluff ''a..b'' = ''a..b''
   \<and> fluff_free simple_fluff_patterns ''a..b'' \<and> simple_clean ''a..b'' = ''a.b''
   \<and> fluff_free simple_fluff_patterns ''a.b'' \<and> simple_clean ''a.b'' = ''a.b''"
proof -
  have 1: "simple_clean ''a..b'' = ''a.b''"
    using fluff_free_text_kept [of simple_fluff_patterns "''a..b''"] simple_free_periods by simp
  have 2: "simple_clean (simple_clean ''a..b'') = simple_clean ''a..b''"
    using fluff_free_text_kept [of simple_fluff_patterns "''a..b''"] simple_free_period
    unfolding 1 by simp
  have 3: "remove_fluff major_fluff ''a..b'' = ''a..b''"
    using fluff_free_text_kept [of major_fluff "''a..b''"] major_free_periods by simp
  show ?thesis using 1 2 3 simple_free_periods simple_free_period major_free_periods by simp
qed

section \<open>Filler lines\<close>

text \<open>No skip pattern matches the empty line, a heading line, a question line or an answer line.\<close>

lemma skip_empty: "\<not> should_skip qa_skip_patterns []"
  by (simp add: should_skip_def qa_skip_patterns_def ilit_def plus_def)

lemma skip_heading: "\<not> should_skip qa_skip_patterns (''## '' @ s)"
  by (simp add: should_skip_def qa_skip_patterns_def ilit_def plus_def lower_def in_range_def is_digit_def)

lemma skip_answer: "\<not> should_skip qa_skip_patterns (''A: '' @ s)"
  by (simp add: should_skip_def qa_skip_patterns_def ilit_def plus_def lower_def in_range_def is_digit_def)

lemma lower_digit: "is_digit d \<Longrightarrow> lower d = d"
  by (auto simp: is_digit_def lower_def in_range_def)

lemma lower_first_chars:
  "lower CHR ''P'' = CHR ''p''" "lower CHR ''Y'' = CHR ''y''" "lower CHR ''C'' = CHR ''c''"
  "lower CHR ''I'' = CHR ''i''" "lower CHR ''D'' = CHR ''d''" "lower CHR ''H'' = CHR ''h''"
  "lower CHR ''c'' = CHR ''c''" "lower CHR ''+'' = CHR ''+''" "lower CHR ''.'' = CHR ''.''"
  by (simp_all add: lower_def in_range_def)

lemma digit_not_first_char:
  "is_digit d \<Longrightarrow> d \<notin> set ''pycidh+''"
  by (auto simp: is_digit_def)

lemma greedy_digits_then_plus:
  "list_all is_digit ds \<Longrightarrow> rmatch (Greedy Digit # One (ICh CHR ''+'') # q) (ds @ CHR ''.'' # r) = None"
proof (induction ds)
  case Nil
  show ?case by (simp add: lower_first_chars is_digit_def)
next
  case (Cons d ds)
  then have "lower d \<noteq> CHR ''+''" using digit_not_first_char [of d] by (simp add: lower_digit)
  with Cons show ?case by (simp add: lower_first_chars)
qed

lemma skip_digit_first:
  assumes "is_digit d" and "list_all is_digit ds"
  shows "\<not> should_skip qa_skip_patterns (d # ds @ CHR ''.'' # r)"
proof -
  have "lower d \<notin> set ''pycidh+''" using assms(1) digit_not_first_char [of d] by (simp add: lower_digit)
  then show ?thesis
    using greedy_digits_then_plus [OF assms(2), of _ r] assms(1)
    by (simp add: should_skip_def qa_skip_patterns_def ilit_def plus_def lower_first_chars)
qed

lemma skip_question: "\<not> should_skip qa_skip_patterns (show_nat n @ ''. Q: '' @ t)"
proof -
  obtain d ds where s: "show_nat n = d # ds" using show_nat_digits [of n] by (cases "show_nat n") auto
  then have "is_digit d" "list_all is_digit ds" using show_nat_digits [of n] by auto
  then show ?thesis using skip_digit_first [of d ds "'' Q: '' @ t"] s by simp
qed

text \<open>An element of \<open>processed_lines\<close> none of whose lines in the written document matches a
  skip pattern.\<close>

definition unskipped :: "oline \<Rightarrow> bool" where
  "unskipped e = (\<forall>l\<in>set (split_nl (render e)). \<not> should_skip qa_skip_patterns l)"

lemma unskipped_topic:
  assumes "nl \<notin> set raw" and "tail = [] \<or> tail = [nl]"
  shows "unskipped (Topic (nl # ''## '' @ strip raw @ tail))"
proof -
  define X where "X = ''## '' @ strip raw"
  have n: "nl \<notin> set X"
    unfolding X_def using assms(1) set_strip [of raw] by (auto simp: nl_def)
  have "split_nl (X @ tail) = [X] \<or> split_nl (X @ tail) = [X, []]"
    using assms(2) split_nl_no_nl [OF n] split_nl_append [of X "[]"] by auto
  then have "set (split_nl (nl # X @ tail)) \<subseteq> {[], X}"
    by auto
  moreover have "\<not> should_skip qa_skip_patterns X"
    unfolding X_def by (rule skip_heading)
  moreover have "render (Topic (nl # ''## '' @ strip raw @ tail)) = nl # X @ tail"
    unfolding X_def by simp
  ultimately show ?thesis
    unfolding unskipped_def using skip_empty by (metis insertE singletonD subsetD)
qed

lemma unskipped_blank: "unskipped Blank"
  by (simp add: unskipped_def skip_empty)

lemma unskipped_single:
  assumes "nl \<notin> set s" and "\<not> should_skip qa_skip_patterns s" and "render e = s"
  shows "unskipped e"
proof -
  have "split_nl s = [s]" using assms(1) by (rule split_nl_no_nl)
  with assms(2) have "\<forall>l\<in>set (split_nl s). \<not> should_skip qa_skip_patterns l" by simp
  then show ?thesis unfolding unskipped_def assms(3) .
qed

lemma unskipped_question:
  assumes "nl \<notin> set raw"
  shows "unskipped (Question qn (strip (drop 2 (strip raw))))"
proof -
  define t where "t = strip (drop 2 (strip raw))"
  have "set t \<subseteq> set (drop 2 (strip raw))" unfolding t_def by (rule set_strip)
  also have "\<dots> \<subseteq> set (strip raw)" by (rule set_drop_subset)
  also have "\<dots> \<subseteq> set raw" by (rule set_strip)
  finally have 1: "nl \<notin> set t" using assms by blast
  have "\<forall>c\<in>set (show_nat qn). is_digit c"
    using show_nat_digits [of qn] by (simp add: list_all_iff)
  moreover have "\<not> is_digit nl" by (simp add: is_digit_def nl_def)
  ultimately have 2: "nl \<notin> set (show_nat qn)" by blast
  have 3: "nl \<notin> set ''. Q: ''" by (simp add: nl_def)
  have "nl \<notin> set (show_nat qn @ ''. Q: '' @ t)"
    using 1 2 3 by (simp only: set_append Un_iff simp_thms not_False_eq_True)
  moreover have "\<not> should_skip qa_skip_patterns (show_nat qn @ ''. Q: '' @ t)"
    by (rule skip_question)
  moreover have "render (Question qn t) = show_nat qn @ ''. Q: '' @ t"
    by (simp only: render.simps)
  ultimately show ?thesis unfolding t_def [symmetric] by (rule unskipped_single)
qed

lemma unskipped_answer:
  assumes "ws_normal a"
  shows "unskipped (Answer a)"
proof -
  have "nl \<notin> set a" using assms by (rule ws_normal_no_nl)
  moreover have "nl \<notin> set ''A: ''" by (simp add: nl_def)
  ultimately have "nl \<notin> set (''A: '' @ a)"
    by (simp only: set_append Un_iff simp_thms not_False_eq_True)
  moreover have "\<not> should_skip qa_skip_patterns (''A: '' @ a)" by (rule skip_answer)
  moreover have "render (Answer a) = ''A: '' @ a" by (simp only: render.simps)
  ultimately show ?thesis by (rule unskipped_single)
qed

lemma unskipped_other:
  assumes "nl \<notin> set raw" and "\<not> should_skip qa_skip_patterns (strip raw)"
  shows "unskipped (Other (strip raw))"
proof -
  have "nl \<notin> set (strip raw)" using assms(1) set_strip [of raw] by blast
  moreover have "render (Other (strip raw)) = strip raw" by (simp only: render.simps)
  ultimately show ?thesis using assms(2) by (intro unskipped_single [of "strip raw"])
qed

lemma split_render_unskipped:
  assumes "reach po lines out qn" and "\<forall>raw\<in>set lines. nl \<notin> set raw"
  shows "list_all unskipped out"
  using assms
proof (induction rule: reach.induct)
  case start
  show ?case by simp
next
  case (topic out qn raw tail)
  then show ?case using unskipped_topic [of raw tail] by simp
next
  case (blank out qn)
  then show ?case using unskipped_blank by simp
next
  case (question out qn raw)
  then show ?case using unskipped_question [of raw qn] by simp
next
  case (answer out qn a)
  then show ?case using unskipped_answer [of a] by simp
next
  case (other out qn raw)
  then show ?case using unskipped_other [of raw] by simp
qed

lemma written_unskipped:
  assumes "reach po (split_nl s) out qn" and "l \<in> set (split_nl (join_nl (map render out)))"
  shows "\<not> should_skip qa_skip_patterns l"
proof (cases "out = []")
  case True
  with assms(2) show ?thesis using skip_empty by simp
next
  case False
  have "\<forall>raw\<in>set (split_nl s). nl \<notin> set raw" using split_nl_pieces by blast
  with assms(1) have "list_all unskipped out"
    by (rule split_render_unskipped)
  then have "\<forall>e\<in>set out. \<forall>l\<in>set (split_nl (render e)). \<not> should_skip qa_skip_patterns l"
    by (simp add: list_all_iff unskipped_def)
  moreover have "split_nl (join_nl (map render out)) = concat (map split_nl (map render out))"
    using False by (intro split_join) simp
  ultimately show ?thesis using assms(2) by auto
qed

lemma skip_continue: "should_skip qa_skip_patterns ''Do you want me to continue?''"
  by (simp add: should_skip_def qa_skip_patterns_def ilit_def plus_def lower_def in_range_def is_digit_def)

lemma qa_out_perfect: "process_db_qa_out ''Perfect.\<newline>Q: a'' = [Question 1 ''a'']"
  by (simp add: run_defs)

lemma simple_free_continue: "fluff_free simple_fluff_patterns ''Do you want me to continue?''"
  by (simp add: fluff_free_def run_defs)

lemma qa_out_nested_phrase: "process_db_qa_out ''I can I can expandexpand'' = [Other ''I can expand'']"
  by (simp add: run_defs)

text \<open>
  Claim C8 says that no line of the written output consists only of a known filler phrase
  such as \<open>Do you want me to continue?\<close>. The patterns of \<open>simple_clean\<close> all begin with a
  space, and a file that is the line \<open>Do you want me to continue?\<close> is written back as it
  is. In \<open>process_db_qa\<close> the patterns are applied one after the other, each once: from
  \<open>I can I can expandexpand\<close> the pattern \<open>I can expand.*?\<close> leaves the line \<open>I can expand\<close>,
  which no skip pattern matches.
\<close>

theorem filler_line_kept:
  "simple_clean ''Do you want me to continue?'' = ''Do you want me to continue?''
   \<and> fst (process_db_qa ''I can I can expandexpand'') = ''I can expand''"
  by (simp add: simple_clean_squeeze remove_fluff_no_match simple_free_continue
        process_db_qa_def qa_out_nested_phrase Let_def)

text \<open>
  Claim C8, amended. For every input text, no line of the document written by
  \<open>process_db_qa\<close>, \<open>clean_db_final\<close> or \<open>process_db_qa_improved\<close> matches one of the skip
  patterns (\<open>Perfect.\<close>, \<open>You said:\<close>, \<open>ChatGPT said:\<close>, \<open>If you want\<close>, \<open>Do you want\<close>,
  \<open>Here's a\<close>, digits and \<open>+\<close> before \<open>practical\<close>, \<open>covering\<close> before \<open>specifically\<close>, at the
  start of the line, in any case); in particular the line \<open>Do you want me to continue?\<close>
  is never in it.
\<close>

theorem skip_phrases_never_written:
  assumes "l \<in> set (split_nl (fst (process_db_qa content))) \<union> set (split_nl (fst (clean_db_final content)))
             \<union> set (split_nl (fst (process_db_qa_improved content)))"
  shows "\<not> should_skip qa_skip_patterns l \<and> l \<noteq> ''Do you want me to continue?''"
proof -
  have "\<not> should_skip qa_skip_patterns l"
    using assms qa_out_reach [of content] final_out_reach [of content] improved_out_reach [of content]
    by (auto simp: process_db_qa_def clean_db_final_def process_db_qa_improved_def Let_def
          qa_cleaned_def final_cleaned_def improved_cleaned_def dest: written_unskipped)
  then show ?thesis using skip_continue by auto
qed

text \<open>A line \<open>Perfect.\<close> and a question, in \<open>process_db_qa\<close>.\<close>

theorem skip_phrases_never_written_witness:
  "''1. Q: a'' \<in> set (split_nl (fst (process_db_qa ''Perfect.\<newline>Q: a'')))
   \<and> \<not> should_skip qa_skip_patterns ''1. Q: a''"
proof -
  have "fst (process_db_qa ''Perfect.\<newline>Q: a'') = ''1. Q: a''"
    by (simp add: process_db_qa_def qa_out_perfect show_nat.simps digit_char_def Let_def)
  then have m: "''1. Q: a'' \<in> set (split_nl (fst (process_db_qa ''Perfect.\<newline>Q: a'')))"
    by (simp add: nl_def)
  then show ?thesis
    using skip_phrases_never_written [of "''1. Q: a''" "''Perfect.\<newline>Q: a''"] by blast
qed

section \<open>The summary counts\<close>

text \<open>
  Claim C7. The counts printed after a run (and returned by \<open>process_db_qa\<close>) are said to
  equal the numbers of topic-heading lines, question lines and answer lines of the
  document written. For the input \<open>1. Database Operations & Reliability\<close>, the example
  heading of the scripts' own comments, \<open>clean_db_final\<close> and \<open>process_db_qa\<close> both write a
  document with one line starting with \<open>## \<close>, and both count 0 topics: the elements
  appended for a heading start with a newline, so \<open>line.startswith('## ')\<close> is false
  for them.
\<close>

theorem topics_count_misses_heading:
  "count_topics (split_nl (fst (clean_db_final ''1. Database Operations & Reliability''))) = 1
   \<and> fst (snd (clean_db_final ''1. Database Operations & Reliability'')) = 0
   \<and> count_topics (split_nl (fst (process_db_qa ''1. Database Operations & Reliability''))) = 1
   \<and> fst (snd (process_db_qa ''1. Database Operations & Reliability'')) = 0"
  by (simp add: clean_db_final_def process_db_qa_def final_out_heading qa_out_heading
        count_topics_def startswith_def nl_def Let_def)

end
